theory Spec2Isabelle
  imports Complex_Main
begin

section \<open>Errors\<close>

text \<open>
  The exceptions of \<^verbatim>\<open>src/ht.h\<close> as values:
  \<^item> \<open>ProberMisuse\<close>: \<^verbatim>\<open>std::logic_error("Prober::next() must be overridden")\<close>;
  \<^item> \<open>TableFull\<close>: \<^verbatim>\<open>std::logic_error("HashTable full, cannot insert")\<close>;
  \<^item> \<open>CapacityExhausted\<close>: \<^verbatim>\<open>std::logic_error("No more prime capacities")\<close>;
  \<^item> \<open>KeyNotFound\<close>: \<^verbatim>\<open>std::out_of_range("Key not found")\<close>.

  \<open>OutOfFuel\<close> is not an exception of the program: it is what the recursion
  \<^verbatim>\<open>insert \<rightarrow> resize \<rightarrow> insert\<close> returns when its depth counter runs out. It is shown
  below never to occur for the depth the model uses.
\<close>

datatype error = ProberMisuse | TableFull | CapacityExhausted | KeyNotFound | OutOfFuel

section \<open>Probers\<close>

text \<open>
  \<^verbatim>\<open>HASH_INDEX_T\<close> is \<^verbatim>\<open>size_t\<close>; it is modelled by \<open>nat\<close>. The only arithmetic on it is
  \<^verbatim>\<open>start_ + numProbes_ * dhstep_\<close> with all three below the table size, which stays
  far below \<open>2 ^ 64\<close> for every table size of the program (lemma \<open>next_no_wrap\<close>).
  The sentinel \<^verbatim>\<open>npos = (size_t)-1\<close> is \<open>None\<close>: \<^verbatim>\<open>next()\<close> returns either a slot index
  \<open>Some loc\<close> with \<open>loc < m_\<close>, or \<open>None\<close>.

  Fields \<^verbatim>\<open>start_\<close>, \<^verbatim>\<open>m_\<close>, \<^verbatim>\<open>numProbes_\<close>, \<^verbatim>\<open>dhstep_\<close> are \<open>p_start\<close>, \<open>p_m\<close>,
  \<open>numProbes\<close>, \<open>dhstep\<close>.
\<close>

record Prober =
  p_start :: nat
  p_m :: nat
  numProbes :: nat

definition Prober_init :: "nat \<Rightarrow> nat \<Rightarrow> 'k \<Rightarrow> Prober" where
  "Prober_init start m key = \<lparr>p_start = start, p_m = m, numProbes = 0\<rparr>"

text \<open>\<^verbatim>\<open>Prober::next\<close> only throws.\<close>

definition Prober_next :: "Prober \<Rightarrow> error + (nat option \<times> Prober)" where
  "Prober_next p = Inl ProberMisuse"

text \<open>\<^verbatim>\<open>LinearProber::next\<close>: no throw statement; it returns \<^verbatim>\<open>npos\<close> once \<^verbatim>\<open>m_\<close> slots were tried.\<close>

definition LinearProber_next :: "Prober \<Rightarrow> nat option \<times> Prober" where
  "LinearProber_next p =
     (if numProbes p \<ge> p_m p then (None, p)
      else (Some ((p_start p + numProbes p) mod p_m p), p\<lparr>numProbes := numProbes p + 1\<rparr>))"

record DoubleHashProber = Prober +
  dhstep :: nat

definition DOUBLE_HASH_MOD_VALUES :: "nat list" where
  "DOUBLE_HASH_MOD_VALUES =
    [7, 19, 43, 89, 193, 389, 787, 1583, 3191, 6397,
     12841, 25703, 51431, 102871, 205721, 411503,
     823051, 1646221, 3292463, 6584957, 13169963,
     26339921, 52679927, 105359939, 210719881,
     421439749, 842879563, 1685759113]"

text \<open>
  The loop of \<^verbatim>\<open>DoubleHashProber::init\<close>,
  \<^verbatim>\<open>for (i = 0; i < SIZE && VALUES[i] < m; ++i) mod = VALUES[i];\<close>
  over the values not yet visited, with the current \<^verbatim>\<open>mod\<close>.
\<close>

fun init_mod_loop :: "nat list \<Rightarrow> nat \<Rightarrow> nat \<Rightarrow> nat" where
  "init_mod_loop [] m md = md"
| "init_mod_loop (v # vs) m md = (if v < m then init_mod_loop vs m v else md)"

definition init_mod :: "nat list \<Rightarrow> nat \<Rightarrow> nat" where
  "init_mod values m = init_mod_loop values m (values ! 0)"

definition DoubleHashProber_init ::
  "('k \<Rightarrow> nat) \<Rightarrow> nat \<Rightarrow> nat \<Rightarrow> 'k \<Rightarrow> DoubleHashProber" where
  "DoubleHashProber_init h2 start m key =
     (let md = init_mod DOUBLE_HASH_MOD_VALUES m
      in \<lparr>p_start = start, p_m = m, numProbes = 0, dhstep = md - (h2 key mod md)\<rparr>)"

definition DoubleHashProber_next :: "DoubleHashProber \<Rightarrow> nat option \<times> DoubleHashProber" where
  "DoubleHashProber_next p =
     (if numProbes p \<ge> p_m p then (None, p)
      else (Some ((p_start p + numProbes p * dhstep p) mod p_m p),
            p\<lparr>numProbes := numProbes p + 1\<rparr>))"

text \<open>The capacity ladder \<^verbatim>\<open>HashTable::CAPACITIES\<close> and its length \<^verbatim>\<open>capCount\<close>.\<close>

definition CAPACITIES :: "nat list" where
  "CAPACITIES =
    [11, 23, 47, 97, 197, 397, 797, 1597,
     3203, 6421, 12853, 25717, 51437, 102877,
     205759, 411527, 823117, 1646237, 3292489,
     6584983, 13169977, 26339969, 52679969,
     105359969, 210719881, 421439783,
     842879579, 1685759167]"

definition capCount :: nat where
  "capCount = length CAPACITIES"

text \<open>
  What a caller of \<^verbatim>\<open>next()\<close> observes on a prober object of each of the three
  classes: the exception, or the returned index (\<open>None\<close> for \<^verbatim>\<open>npos\<close>).
\<close>

datatype prober_object =
  BaseObject Prober | LinearObject Prober | DoubleHashObject DoubleHashProber

fun call_next :: "prober_object \<Rightarrow> error + nat option" where
  "call_next (BaseObject p) = map_sum id fst (Prober_next p)"
| "call_next (LinearObject p) = Inr (fst (LinearProber_next p))"
| "call_next (DoubleHashObject p) = Inr (fst (DoubleHashProber_next p))"

section \<open>The hash table of \<^verbatim>\<open>src/ht.h\<close>\<close>

text \<open>
  A slot of \<^verbatim>\<open>std::vector<HashItem*> table_\<close> is \<open>None\<close> for \<^verbatim>\<open>nullptr\<close> and
  \<open>Some hi\<close> for a pointer to a heap \<^verbatim>\<open>HashItem\<close>. Each item has one owner, its slot; \<^verbatim>\<open>resize\<close>
  copies the pointers, builds fresh items in the new vector and deletes the old ones, so the
  value model loses no aliasing.
\<close>

record ('k, 'v) HashItem =
  item :: "'k \<times> 'v"
  deleted :: bool

text \<open>
  The template argument \<^verbatim>\<open>Prober\<close> of a table is one of the two specialised probers (the
  double-hash one with its second hash function \<^verbatim>\<open>h2_\<close>). The member \<^verbatim>\<open>prober_\<close> is
  re-initialised by every \<^verbatim>\<open>probe\<close>, so its fields are local to \<open>probe\<close> in the model.
\<close>

datatype 'k prober_kind = UseLinearProber | UseDoubleHashProber "'k \<Rightarrow> nat"

datatype prober_instance = LinearInstance Prober | DoubleHashInstance DoubleHashProber

text \<open>
  The members of \<^verbatim>\<open>HashTable\<close>, without the trailing underscore. \<^verbatim>\<open>kequal_\<close> is the default
  \<^verbatim>\<open>std::equal_to<K>\<close>, HOL equality. \<^verbatim>\<open>resizeAlpha_\<close> is a \<^verbatim>\<open>double\<close>: the field holds
  the rational number that a finite double denotes; the quotient of the growth test is rounded
  as \<^verbatim>\<open>double\<close> division rounds it (\<open>round_double\<close> below).
  The counters \<^verbatim>\<open>count_\<close> and \<^verbatim>\<open>used_\<close> are \<^verbatim>\<open>size_t\<close>; in every state built by the operations
  they stay between 0 and the table size (\<open>table_inv\<close> below), so they never wrap.
\<close>

record ('k, 'v) HashTable =
  table :: "('k, 'v) HashItem option list"
  prober :: "'k prober_kind"
  hash :: "'k \<Rightarrow> nat"
  resizeAlpha :: rat
  totalProbes :: nat
  mIndex :: nat
  count :: nat
  used :: nat

text \<open>The constructor: \<^verbatim>\<open>mIndex_ = 0\<close>, all counters 0, \<^verbatim>\<open>CAPACITIES[0]\<close> null slots.\<close>

definition HashTable_init :: "rat \<Rightarrow> 'k prober_kind \<Rightarrow> ('k \<Rightarrow> nat) \<Rightarrow> ('k, 'v) HashTable" where
  "HashTable_init alpha pk h =
     \<lparr>table = replicate (CAPACITIES ! 0) None, prober = pk, hash = h, resizeAlpha = alpha,
      totalProbes = 0, mIndex = 0, count = 0, used = 0\<rparr>"

definition empty_ht :: "('k, 'v) HashTable \<Rightarrow> bool" where
  "empty_ht ht = (count ht = 0)"

definition size_ht :: "('k, 'v) HashTable \<Rightarrow> nat" where
  "size_ht ht = count ht"

subsection \<open>\<^verbatim>\<open>probe\<close>\<close>

text \<open>\<^verbatim>\<open>prober_.init\<close> and \<^verbatim>\<open>prober_.next\<close> for the prober class of the table.\<close>

fun prober_init :: "'k prober_kind \<Rightarrow> nat \<Rightarrow> nat \<Rightarrow> 'k \<Rightarrow> prober_instance" where
  "prober_init UseLinearProber start m key = LinearInstance (Prober_init start m key)"
| "prober_init (UseDoubleHashProber h2) start m key =
     DoubleHashInstance (DoubleHashProber_init h2 start m key)"

fun prober_next :: "prober_instance \<Rightarrow> nat option \<times> prober_instance" where
  "prober_next (LinearInstance p) =
     (case LinearProber_next p of (loc, p') \<Rightarrow> (loc, LinearInstance p'))"
| "prober_next (DoubleHashInstance p) =
     (case DoubleHashProber_next p of (loc, p') \<Rightarrow> (loc, DoubleHashInstance p'))"

fun probes_left :: "prober_instance \<Rightarrow> nat" where
  "probes_left (LinearInstance p) = p_m p - numProbes p"
| "probes_left (DoubleHashInstance p) = p_m p - numProbes p"

text \<open>
  The two conditions under which the loop of \<^verbatim>\<open>probe\<close> returns \<^verbatim>\<open>loc\<close>: the slot is null, or
  it holds a non-deleted item with an equal key.
\<close>

definition probe_stop :: "('k, 'v) HashItem option list \<Rightarrow> 'k \<Rightarrow> nat \<Rightarrow> bool" where
  "probe_stop tbl key loc =
     (case tbl ! loc of None \<Rightarrow> True | Some hi \<Rightarrow> \<not> deleted hi \<and> fst (item hi) = key)"

text \<open>
  The loop of \<^verbatim>\<open>probe\<close>. Each round is one \<^verbatim>\<open>prober_.next()\<close> followed by \<^verbatim>\<open>++totalProbes_\<close>
  (the call before the \<^verbatim>\<open>while\<close> is the first round); \<open>tp\<close> is the running \<^verbatim>\<open>totalProbes_\<close>.
\<close>

function probe_loop ::
  "('k, 'v) HashItem option list \<Rightarrow> 'k \<Rightarrow> prober_instance \<Rightarrow> nat \<Rightarrow> nat option \<times> nat" where
  "probe_loop tbl key pr tp =
     (case prober_next pr of
        (None, pr') \<Rightarrow> (None, tp + 1)
      | (Some loc, pr') \<Rightarrow>
          if probe_stop tbl key loc then (Some loc, tp + 1)
          else probe_loop tbl key pr' (tp + 1))"
  by pat_completeness auto
termination
proof (relation "measure (\<lambda>(tbl, key, pr, tp). probes_left pr)")
  show "wf (measure (\<lambda>(tbl, key, pr, tp). probes_left pr))" by simp
next
  fix tbl :: "('k, 'v) HashItem option list" and key :: 'k
    and pr :: prober_instance and tp :: nat
    and r :: "nat option" and pr' loc
  assume "(r, pr') = prober_next pr" "r = Some loc" "\<not> probe_stop tbl key loc"
  then have "prober_next pr = (Some loc, pr')" by simp
  then have "probes_left pr' < probes_left pr"
    by (cases pr)
       (auto simp: LinearProber_next_def DoubleHashProber_next_def split: if_splits)
  then show "((tbl, key, pr', tp + 1), (tbl, key, pr, tp))
               \<in> measure (\<lambda>(tbl, key, pr, tp). probes_left pr)"
    by simp
qed

declare probe_loop.simps [simp del]

definition probe :: "('k, 'v) HashTable \<Rightarrow> 'k \<Rightarrow> nat option \<times> ('k, 'v) HashTable" where
  "probe ht key =
     (let h0 = hash ht key mod (CAPACITIES ! mIndex ht);
          pr = prober_init (prober ht) h0 (CAPACITIES ! mIndex ht) key
      in case probe_loop (table ht) key pr (totalProbes ht) of
           (loc, tp) \<Rightarrow> (loc, ht\<lparr>totalProbes := tp\<rparr>))"

subsection \<open>\<^verbatim>\<open>insert\<close> and \<^verbatim>\<open>resize\<close>\<close>

text \<open>
  \<^verbatim>\<open>insert\<close> calls \<^verbatim>\<open>resize\<close>, whose loop calls \<^verbatim>\<open>insert\<close>. The model ties the knot with a depth
  counter: \<open>insert_fuel_with \<dots> (Suc n)\<close> hands \<open>insert_fuel_with \<dots> n\<close> to \<open>resize\<close>. Every
  nested \<^verbatim>\<open>resize\<close> raises \<^verbatim>\<open>mIndex_\<close>, so depth \<open>capCount\<close> is never used up
  (lemma \<open>insert_fuel_with_enough\<close>).

  An operation returns the table as the exception leaves it: \<open>(Some e, ht)\<close> is
  \<^verbatim>\<open>throw\<close> with the members in state \<open>ht\<close>, \<open>(None, ht)\<close> a normal return.

  The growth test and the probe are parameters (\<open>grow_test\<close>, \<open>prb\<close>): the second header,
  \<^verbatim>\<open>src/unnamed/part_000\<close>, has the same \<^verbatim>\<open>insert\<close> and \<^verbatim>\<open>resize\<close> with another test and its
  own \<^verbatim>\<open>probe\<close>.
\<close>

subsection \<open>The load-factor test in \<^verbatim>\<open>double\<close> arithmetic\<close>

text \<open>
  The test \<^verbatim>\<open>double(used_ + 1) / table_.size() >= resizeAlpha_\<close> converts both counters to
  \<^verbatim>\<open>double\<close>, divides in \<^verbatim>\<open>double\<close> and compares two \<^verbatim>\<open>double\<close>s. A finite \<^verbatim>\<open>double\<close> is the
  rational number it denotes, and an IEEE-754 binary64 operation returns the exact result
  rounded to 53 significant bits, ties to even: \<open>round_double\<close>. With \<open>e = ilog2 x\<close> the
  binary exponent of \<open>x\<close> (\<open>2\<^sup>e \<le> x < 2\<^sup>e\<^sup>+\<^sup>1\<close>), the doubles around \<open>x\<close> are the multiples of
  \<open>2\<^sup>e\<^sup>-\<^sup>5\<^sup>2\<close>.

  Not modelled: the exponent range (the operands are \<^verbatim>\<open>size_t\<close> values and the divisor is a
  ladder capacity, so a quotient is 0 or lies between \<open>2\<^sup>-\<^sup>6\<^sup>4\<close> and \<open>2\<^sup>6\<^sup>4\<close>, where every
  double is normal), and a load factor that is an infinity or a NaN.
\<close>

fun log2_nat :: "nat \<Rightarrow> nat" where
  "log2_nat n = (if n < 2 then 0 else Suc (log2_nat (n div 2)))"

declare log2_nat.simps [simp del]

definition ilog2 :: "rat \<Rightarrow> int" where
  "ilog2 x = (let (a, b) = quotient_of x;
                  d = int (log2_nat (nat a)) - int (log2_nat (nat b))
              in if 2 powi d \<le> x then d else d - 1)"

definition round_half_even :: "rat \<Rightarrow> int" where
  "round_half_even q =
     (let f = \<lfloor>q\<rfloor>; r = q - of_int f
      in if r < 1 / 2 then f else if 1 / 2 < r then f + 1 else if even f then f else f + 1)"

definition round_double :: "rat \<Rightarrow> rat" where
  "round_double x =
     (if x = 0 then 0
      else let s = ilog2 \<bar>x\<bar> - 52
           in sgn x * of_int (round_half_even (\<bar>x\<bar> / 2 powi s)) * 2 powi s)"

text \<open>The conversion \<^verbatim>\<open>double(n)\<close> of a \<^verbatim>\<open>size_t\<close>; it is exact below \<open>2\<^sup>5\<^sup>3\<close>.\<close>

definition double_of_nat :: "nat \<Rightarrow> rat" where
  "double_of_nat n = round_double (of_nat n)"

text \<open>The default argument \<^verbatim>\<open>0.4\<close> of the constructor: the double nearest to \<open>2/5\<close>.\<close>

definition default_alpha :: rat where
  "default_alpha = 3602879701896397 / 9007199254740992"

text \<open>The growth test of \<^verbatim>\<open>ht.h\<close>: \<^verbatim>\<open>double(used_ + 1) / table_.size() >= resizeAlpha_\<close>.\<close>

definition needs_resize :: "('k, 'v) HashTable \<Rightarrow> bool" where
  "needs_resize ht =
     (resizeAlpha ht
        \<le> round_double (double_of_nat (used ht + 1) / double_of_nat (length (table ht))))"

text \<open>The loop \<^verbatim>\<open>for (auto pItem : oldTab)\<close> of \<^verbatim>\<open>resize\<close>; it stops where an \<^verbatim>\<open>insert\<close> throws.\<close>

fun rehash ::
  "(('k, 'v) HashTable \<Rightarrow> 'k \<times> 'v \<Rightarrow> error option \<times> ('k, 'v) HashTable) \<Rightarrow>
   ('k, 'v) HashItem option list \<Rightarrow> ('k, 'v) HashTable \<Rightarrow> error option \<times> ('k, 'v) HashTable" where
  "rehash ins [] ht = (None, ht)"
| "rehash ins (pItem # oldTab) ht =
     (case pItem of
        None \<Rightarrow> rehash ins oldTab ht
      | Some hi \<Rightarrow>
          if \<not> deleted hi then
            (case ins ht (item hi) of
               (Some e, ht') \<Rightarrow> (Some e, ht')
             | (None, ht') \<Rightarrow> rehash ins oldTab ht')
          else rehash ins oldTab ht)"

definition resize ::
  "(('k, 'v) HashTable \<Rightarrow> 'k \<times> 'v \<Rightarrow> error option \<times> ('k, 'v) HashTable) \<Rightarrow>
   ('k, 'v) HashTable \<Rightarrow> error option \<times> ('k, 'v) HashTable" where
  "resize ins ht =
     (if mIndex ht + 1 \<ge> capCount then (Some CapacityExhausted, ht)
      else rehash ins (table ht)
             (ht\<lparr>mIndex := mIndex ht + 1,
                 table := replicate (CAPACITIES ! (mIndex ht + 1)) None,
                 count := 0, used := 0\<rparr>))"

text \<open>The part of \<^verbatim>\<open>insert\<close> after the growth test: probe, then write.\<close>

definition insert_at_probe ::
  "(('k, 'v) HashTable \<Rightarrow> 'k \<Rightarrow> nat option \<times> ('k, 'v) HashTable) \<Rightarrow>
   ('k, 'v) HashTable \<Rightarrow> 'k \<times> 'v \<Rightarrow> error option \<times> ('k, 'v) HashTable" where
  "insert_at_probe prb ht p =
     (case prb ht (fst p) of
        (None, ht') \<Rightarrow> (Some TableFull, ht')
      | (Some loc, ht') \<Rightarrow>
          (case table ht' ! loc of
             None \<Rightarrow>
               (None, ht'\<lparr>table := (table ht')[loc := Some \<lparr>item = p, deleted = False\<rparr>],
                          count := count ht' + 1, used := used ht' + 1\<rparr>)
           | Some hi \<Rightarrow>
               (None, ht'\<lparr>table := (table ht')[loc := Some (hi\<lparr>item := (fst (item hi), snd p)\<rparr>)]\<rparr>)))"

definition insert_with ::
  "(('k, 'v) HashTable \<Rightarrow> bool) \<Rightarrow>
   (('k, 'v) HashTable \<Rightarrow> 'k \<Rightarrow> nat option \<times> ('k, 'v) HashTable) \<Rightarrow>
   (('k, 'v) HashTable \<Rightarrow> 'k \<times> 'v \<Rightarrow> error option \<times> ('k, 'v) HashTable) \<Rightarrow>
   ('k, 'v) HashTable \<Rightarrow> 'k \<times> 'v \<Rightarrow> error option \<times> ('k, 'v) HashTable" where
  "insert_with grow_test prb ins ht p =
     (if grow_test ht then
        (case resize ins ht of
           (Some e, ht') \<Rightarrow> (Some e, ht')
         | (None, ht') \<Rightarrow> insert_at_probe prb ht' p)
      else insert_at_probe prb ht p)"

primrec insert_fuel_with ::
  "(('k, 'v) HashTable \<Rightarrow> bool) \<Rightarrow>
   (('k, 'v) HashTable \<Rightarrow> 'k \<Rightarrow> nat option \<times> ('k, 'v) HashTable) \<Rightarrow> nat \<Rightarrow>
   ('k, 'v) HashTable \<Rightarrow> 'k \<times> 'v \<Rightarrow> error option \<times> ('k, 'v) HashTable" where
  "insert_fuel_with grow_test prb 0 = insert_with grow_test prb (\<lambda>ht p. (Some OutOfFuel, ht))"
| "insert_fuel_with grow_test prb (Suc n) =
     insert_with grow_test prb (insert_fuel_with grow_test prb n)"

definition insert_fuel ::
  "nat \<Rightarrow> ('k, 'v) HashTable \<Rightarrow> 'k \<times> 'v \<Rightarrow> error option \<times> ('k, 'v) HashTable" where
  "insert_fuel = insert_fuel_with needs_resize probe"

definition insert_ht ::
  "('k, 'v) HashTable \<Rightarrow> 'k \<times> 'v \<Rightarrow> error option \<times> ('k, 'v) HashTable" where
  "insert_ht = insert_fuel capCount"

subsection \<open>\<^verbatim>\<open>remove\<close>, \<^verbatim>\<open>find\<close>, \<^verbatim>\<open>at\<close>, \<^verbatim>\<open>reportAll\<close>\<close>

text \<open>
  \<^verbatim>\<open>internalFind\<close> returns a \<^verbatim>\<open>HashItem*\<close>: \<open>Some (loc, hi)\<close> is the pointer \<^verbatim>\<open>table_[loc]\<close> to
  the item \<open>hi\<close>, \<open>None\<close> is \<^verbatim>\<open>nullptr\<close>.
\<close>

definition internalFind ::
  "('k, 'v) HashTable \<Rightarrow> 'k \<Rightarrow> (nat \<times> ('k, 'v) HashItem) option \<times> ('k, 'v) HashTable" where
  "internalFind ht key =
     (case probe ht key of
        (None, ht') \<Rightarrow> (None, ht')
      | (Some loc, ht') \<Rightarrow>
          (case table ht' ! loc of None \<Rightarrow> (None, ht') | Some hi \<Rightarrow> (Some (loc, hi), ht')))"

text \<open>\<^verbatim>\<open>--count_\<close> is applied only to a table with a live item; see \<open>table_inv\<close>.\<close>

definition remove_ht :: "('k, 'v) HashTable \<Rightarrow> 'k \<Rightarrow> ('k, 'v) HashTable" where
  "remove_ht ht key =
     (case internalFind ht key of
        (None, ht') \<Rightarrow> ht'
      | (Some (loc, hi), ht') \<Rightarrow>
          ht'\<lparr>table := (table ht')[loc := Some (hi\<lparr>deleted := True\<rparr>)],
              count := count ht' - 1\<rparr>)"

text \<open>\<^verbatim>\<open>find\<close> returns a pointer to the stored pair, or \<^verbatim>\<open>nullptr\<close>.\<close>

definition find_ht ::
  "('k, 'v) HashTable \<Rightarrow> 'k \<Rightarrow> ('k \<times> 'v) option \<times> ('k, 'v) HashTable" where
  "find_ht ht key =
     (case probe ht key of
        (None, ht') \<Rightarrow> (None, ht')
      | (Some loc, ht') \<Rightarrow>
          (case table ht' ! loc of None \<Rightarrow> (None, ht') | Some hi \<Rightarrow> (Some (item hi), ht')))"

definition at_ht :: "('k, 'v) HashTable \<Rightarrow> 'k \<Rightarrow> (error + 'v) \<times> ('k, 'v) HashTable" where
  "at_ht ht key =
     (case internalFind ht key of
        (None, ht') \<Rightarrow> (Inl KeyNotFound, ht')
      | (Some (loc, hi), ht') \<Rightarrow> (Inr (snd (item hi)), ht'))"

text \<open>\<^verbatim>\<open>reportAll\<close> writes one line per reported bucket; the model lists (bucket, key, value).\<close>

definition reportAll :: "('k, 'v) HashTable \<Rightarrow> (nat \<times> 'k \<times> 'v) list" where
  "reportAll ht =
     concat (map (\<lambda>i. case table ht ! i of
                        None \<Rightarrow> []
                      | Some hi \<Rightarrow> [(i, fst (item hi), snd (item hi))])
                 [0..<length (table ht)])"

definition clearTotalProbes :: "('k, 'v) HashTable \<Rightarrow> ('k, 'v) HashTable" where
  "clearTotalProbes ht = ht\<lparr>totalProbes := 0\<rparr>"

section \<open>The hash table of \<^verbatim>\<open>src/unnamed/part_000\<close>\<close>

text \<open>
  The second header declares the same classes. Its members \<^verbatim>\<open>alpha_\<close>, \<^verbatim>\<open>index_\<close>, \<^verbatim>\<open>eq_\<close> are
  \<open>resizeAlpha\<close>, \<open>mIndex\<close> and equality of the same record; its definitions carry the suffix
  \<open>_p0\<close>. \<^verbatim>\<open>Prober::init\<close>, \<^verbatim>\<open>Prober::next\<close>, \<^verbatim>\<open>LinearProber::next\<close> and
  \<^verbatim>\<open>DoubleHashProber::next\<close> are those of \<^verbatim>\<open>ht.h\<close>; \<^verbatim>\<open>DoubleHashProber::init\<close> reads another
  table, \<^verbatim>\<open>modVals\<close>, which differs from \<^verbatim>\<open>DOUBLE_HASH_MOD_VALUES\<close> in entry 25.
\<close>

definition modVals :: "nat list" where
  "modVals =
    [7, 19, 43, 89, 193, 389, 787, 1583, 3191, 6397, 12841, 25703,
     51431, 102871, 205721, 411503, 823051, 1646221, 3292463, 6584957,
     13169963, 26339921, 52679927, 105359939, 210719881, 421439783,
     842879563, 1685759113]"

definition sizes :: "nat list" where
  "sizes =
    [11, 23, 47, 97, 197, 397, 797, 1597,
     3203, 6421, 12853, 25717, 51437, 102877,
     205759, 411527, 823117, 1646237, 3292489,
     6584983, 13169977, 26339969, 52679969,
     105359969, 210719881, 421439783,
     842879579, 1685759167]"

definition DoubleHashProber_init_p0 ::
  "('k \<Rightarrow> nat) \<Rightarrow> nat \<Rightarrow> nat \<Rightarrow> 'k \<Rightarrow> DoubleHashProber" where
  "DoubleHashProber_init_p0 h2 start m key =
     (let md = init_mod modVals m
      in \<lparr>p_start = start, p_m = m, numProbes = 0, dhstep = md - (h2 key mod md)\<rparr>)"

fun prober_init_p0 :: "'k prober_kind \<Rightarrow> nat \<Rightarrow> nat \<Rightarrow> 'k \<Rightarrow> prober_instance" where
  "prober_init_p0 UseLinearProber start m key = LinearInstance (Prober_init start m key)"
| "prober_init_p0 (UseDoubleHashProber h2) start m key =
     DoubleHashInstance (DoubleHashProber_init_p0 h2 start m key)"

text \<open>
  The loop of \<^verbatim>\<open>probe\<close> in \<^verbatim>\<open>part_000\<close>:
  \<^verbatim>\<open>for (size_t i = 0; i < sizes[index_]; ++i)\<close>, returning \<^verbatim>\<open>npos\<close> after it.
\<close>

function probe_loop_p0 ::
  "('k, 'v) HashItem option list \<Rightarrow> 'k \<Rightarrow> prober_instance \<Rightarrow> nat \<Rightarrow> nat \<Rightarrow> nat
   \<Rightarrow> nat option \<times> nat" where
  "probe_loop_p0 tbl key pr i n tp =
     (if i < n then
        (case prober_next pr of
           (None, pr') \<Rightarrow> (None, tp + 1)
         | (Some loc, pr') \<Rightarrow>
             if probe_stop tbl key loc then (Some loc, tp + 1)
             else probe_loop_p0 tbl key pr' (i + 1) n (tp + 1))
      else (None, tp))"
  by pat_completeness auto
termination
  by (relation "measure (\<lambda>(tbl, key, pr, i, n, tp). n - i)") auto

declare probe_loop_p0.simps [simp del]

definition probe_p0 :: "('k, 'v) HashTable \<Rightarrow> 'k \<Rightarrow> nat option \<times> ('k, 'v) HashTable" where
  "probe_p0 ht key =
     (let h0 = hash ht key mod (sizes ! mIndex ht);
          pr = prober_init_p0 (prober ht) h0 (sizes ! mIndex ht) key
      in case probe_loop_p0 (table ht) key pr 0 (sizes ! mIndex ht) (totalProbes ht) of
           (loc, tp) \<Rightarrow> (loc, ht\<lparr>totalProbes := tp\<rparr>))"

text \<open>The growth test of \<^verbatim>\<open>part_000\<close>: \<^verbatim>\<open>double(used_) / table_.size() >= alpha_\<close>.\<close>

definition needs_resize_p0 :: "('k, 'v) HashTable \<Rightarrow> bool" where
  "needs_resize_p0 ht =
     (resizeAlpha ht
        \<le> round_double (double_of_nat (used ht) / double_of_nat (length (table ht))))"

text \<open>
  \<^verbatim>\<open>insert\<close> of \<^verbatim>\<open>part_000\<close> is followed in the file by a second, stray copy of its \<^verbatim>\<open>else\<close>
  branch outside the function body; the model has the branch once. \<^verbatim>\<open>resize\<close> is that of
  \<^verbatim>\<open>ht.h\<close> with \<^verbatim>\<open>sizes\<close> for \<^verbatim>\<open>CAPACITIES\<close>, and the two arrays are equal
  (lemma \<open>sizes_eq\<close>).
\<close>

definition insert_fuel_p0 ::
  "nat \<Rightarrow> ('k, 'v) HashTable \<Rightarrow> 'k \<times> 'v \<Rightarrow> error option \<times> ('k, 'v) HashTable" where
  "insert_fuel_p0 = insert_fuel_with needs_resize_p0 probe_p0"

definition insert_p0 ::
  "('k, 'v) HashTable \<Rightarrow> 'k \<times> 'v \<Rightarrow> error option \<times> ('k, 'v) HashTable" where
  "insert_p0 = insert_fuel_p0 (length sizes)"

definition internalFind_p0 ::
  "('k, 'v) HashTable \<Rightarrow> 'k \<Rightarrow> (nat \<times> ('k, 'v) HashItem) option \<times> ('k, 'v) HashTable" where
  "internalFind_p0 ht key =
     (case probe_p0 ht key of
        (None, ht') \<Rightarrow> (None, ht')
      | (Some loc, ht') \<Rightarrow>
          (case table ht' ! loc of
             None \<Rightarrow> (None, ht')
           | Some hi \<Rightarrow> if \<not> deleted hi then (Some (loc, hi), ht') else (None, ht')))"

definition remove_p0 :: "('k, 'v) HashTable \<Rightarrow> 'k \<Rightarrow> ('k, 'v) HashTable" where
  "remove_p0 ht key =
     (case internalFind_p0 ht key of
        (None, ht') \<Rightarrow> ht'
      | (Some (loc, hi), ht') \<Rightarrow>
          if \<not> deleted hi then
            ht'\<lparr>table := (table ht')[loc := Some (hi\<lparr>deleted := True\<rparr>)],
                count := count ht' - 1\<rparr>
          else ht')"

definition find_p0 ::
  "('k, 'v) HashTable \<Rightarrow> 'k \<Rightarrow> ('k \<times> 'v) option \<times> ('k, 'v) HashTable" where
  "find_p0 ht key =
     (case internalFind_p0 ht key of
        (None, ht') \<Rightarrow> (None, ht')
      | (Some (loc, hi), ht') \<Rightarrow> (Some (item hi), ht'))"

definition at_p0 :: "('k, 'v) HashTable \<Rightarrow> 'k \<Rightarrow> (error + 'v) \<times> ('k, 'v) HashTable" where
  "at_p0 ht key =
     (case internalFind_p0 ht key of
        (None, ht') \<Rightarrow> (Inl KeyNotFound, ht')
      | (Some (loc, hi), ht') \<Rightarrow> (Inr (snd (item hi)), ht'))"

definition reportAll_p0 :: "('k, 'v) HashTable \<Rightarrow> (nat \<times> 'k \<times> 'v) list" where
  "reportAll_p0 ht =
     concat (map (\<lambda>i. case table ht ! i of
                        None \<Rightarrow> []
                      | Some hi \<Rightarrow>
                          if \<not> deleted hi then [(i, fst (item hi), snd (item hi))] else [])
                 [0..<length (table ht)])"

section \<open>Sequences of public operations\<close>

datatype ('k, 'v) operation = Insert 'k 'v | Remove 'k | Find 'k | At 'k | Size | Empty

text \<open>
  What the caller sees of one operation: a normal \<^verbatim>\<open>void\<close> return, an exception, or the
  returned value.
\<close>

datatype ('k, 'v) outcome =
  Done | Raised error | Found "('k \<times> 'v) option" | Value 'v | Count nat | Flag bool

text \<open>The exceptions of \<^verbatim>\<open>insert\<close> are \<^verbatim>\<open>std::logic_error\<close>; \<^verbatim>\<open>at\<close> raises the recoverable one.\<close>

fun fatal :: "('k, 'v) outcome \<Rightarrow> bool" where
  "fatal (Raised KeyNotFound) = False"
| "fatal (Raised e) = True"
| "fatal r = False"

fun step :: "('k, 'v) HashTable \<Rightarrow> ('k, 'v) operation \<Rightarrow> ('k, 'v) outcome \<times> ('k, 'v) HashTable" where
  "step ht (Insert k v) =
     (case insert_ht ht (k, v) of (None, ht') \<Rightarrow> (Done, ht') | (Some e, ht') \<Rightarrow> (Raised e, ht'))"
| "step ht (Remove k) = (Done, remove_ht ht k)"
| "step ht (Find k) = (case find_ht ht k of (r, ht') \<Rightarrow> (Found r, ht'))"
| "step ht (At k) =
     (case at_ht ht k of (Inl e, ht') \<Rightarrow> (Raised e, ht') | (Inr v, ht') \<Rightarrow> (Value v, ht'))"
| "step ht Size = (Count (size_ht ht), ht)"
| "step ht Empty = (Flag (empty_ht ht), ht)"

fun step_p0 :: "('k, 'v) HashTable \<Rightarrow> ('k, 'v) operation \<Rightarrow> ('k, 'v) outcome \<times> ('k, 'v) HashTable" where
  "step_p0 ht (Insert k v) =
     (case insert_p0 ht (k, v) of (None, ht') \<Rightarrow> (Done, ht') | (Some e, ht') \<Rightarrow> (Raised e, ht'))"
| "step_p0 ht (Remove k) = (Done, remove_p0 ht k)"
| "step_p0 ht (Find k) = (case find_p0 ht k of (r, ht') \<Rightarrow> (Found r, ht'))"
| "step_p0 ht (At k) =
     (case at_p0 ht k of (Inl e, ht') \<Rightarrow> (Raised e, ht') | (Inr v, ht') \<Rightarrow> (Value v, ht'))"
| "step_p0 ht Size = (Count (size_ht ht), ht)"
| "step_p0 ht Empty = (Flag (empty_ht ht), ht)"

text \<open>
  A caller running a list of operations on one table, keeping each outcome; after an
  exception it goes on with the table as the exception left it.
\<close>

fun run_with ::
  "(('k, 'v) HashTable \<Rightarrow> ('k, 'v) operation \<Rightarrow> ('k, 'v) outcome \<times> ('k, 'v) HashTable) \<Rightarrow>
   ('k, 'v) HashTable \<Rightarrow> ('k, 'v) operation list \<Rightarrow> ('k, 'v) outcome list \<times> ('k, 'v) HashTable" where
  "run_with stp ht [] = ([], ht)"
| "run_with stp ht (x # xs) =
     (case stp ht x of (r, ht') \<Rightarrow>
        (case run_with stp ht' xs of (rs, ht'') \<Rightarrow> (r # rs, ht'')))"

definition run ::
  "('k, 'v) HashTable \<Rightarrow> ('k, 'v) operation list \<Rightarrow> ('k, 'v) outcome list \<times> ('k, 'v) HashTable" where
  "run = run_with step"

definition run_p0 ::
  "('k, 'v) HashTable \<Rightarrow> ('k, 'v) operation list \<Rightarrow> ('k, 'v) outcome list \<times> ('k, 'v) HashTable" where
  "run_p0 = run_with step_p0"

section \<open>Probe sequences and the table invariant\<close>

text \<open>
  The indices a prober returns before \<^verbatim>\<open>npos\<close>, as a list: call number \<open>j\<close> returns
  \<open>(start + j * stride) mod m\<close>, with stride 1 for the linear prober. \<open>mods\<close> is the
  modulus table of the header in question.
\<close>

definition probe_indices :: "nat \<Rightarrow> nat \<Rightarrow> nat \<Rightarrow> nat list" where
  "probe_indices start m stp = map (\<lambda>j. (start + j * stp) mod m) [0..<m]"

definition stride :: "nat list \<Rightarrow> 'k prober_kind \<Rightarrow> nat \<Rightarrow> 'k \<Rightarrow> nat" where
  "stride mods pk m key =
     (case pk of
        UseLinearProber \<Rightarrow> 1
      | UseDoubleHashProber h2 \<Rightarrow> init_mod mods m - h2 key mod init_mod mods m)"

definition probe_sequence ::
  "nat list \<Rightarrow> 'k prober_kind \<Rightarrow> ('k \<Rightarrow> nat) \<Rightarrow> nat \<Rightarrow> 'k \<Rightarrow> nat list" where
  "probe_sequence mods pk h i key =
     probe_indices (h key mod (CAPACITIES ! i)) (CAPACITIES ! i)
       (stride mods pk (CAPACITIES ! i) key)"

text \<open>The indices an initialised prober has still to return.\<close>

fun remaining_indices :: "prober_instance \<Rightarrow> nat list" where
  "remaining_indices (LinearInstance p) =
     map (\<lambda>j. (p_start p + j) mod p_m p) [numProbes p..<p_m p]"
| "remaining_indices (DoubleHashInstance p) =
     map (\<lambda>j. (p_start p + j * dhstep p) mod p_m p) [numProbes p..<p_m p]"

text \<open>The first index of a sequence at which the loop of \<^verbatim>\<open>probe\<close> returns.\<close>

definition locate :: "nat list \<Rightarrow> ('k, 'v) HashItem option list \<Rightarrow> 'k \<Rightarrow> nat option" where
  "locate sq tbl key = List.find (probe_stop tbl key) sq"

definition lookup_in ::
  "nat list \<Rightarrow> ('k, 'v) HashItem option list \<Rightarrow> 'k \<Rightarrow> ('k \<times> 'v) option" where
  "lookup_in sq tbl key =
     (case locate sq tbl key of None \<Rightarrow> None | Some loc \<Rightarrow> map_option item (tbl ! loc))"

text \<open>The map a table stands for: what \<^verbatim>\<open>find\<close> returns for each key.\<close>

definition lookup :: "nat list \<Rightarrow> ('k, 'v) HashTable \<Rightarrow> 'k \<Rightarrow> ('k \<times> 'v) option" where
  "lookup mods ht key =
     lookup_in (probe_sequence mods (prober ht) (hash ht) (mIndex ht) key) (table ht) key"

text \<open>The pairs stored in non-deleted items, in slot order.\<close>

definition live_items :: "('k, 'v) HashItem option list \<Rightarrow> ('k \<times> 'v) list" where
  "live_items tbl =
     concat (map (\<lambda>s. case s of None \<Rightarrow> []
                              | Some hi \<Rightarrow> if deleted hi then [] else [item hi]) tbl)"

text \<open>Every non-deleted item is where probing for its key stops.\<close>

definition chain_ok :: "('k \<Rightarrow> nat list) \<Rightarrow> ('k, 'v) HashItem option list \<Rightarrow> bool" where
  "chain_ok sq tbl =
     (\<forall>i<length tbl. \<forall>hi. tbl ! i = Some hi \<longrightarrow> \<not> deleted hi \<longrightarrow>
        locate (sq (fst (item hi))) tbl (fst (item hi)) = Some i)"

definition table_inv :: "nat list \<Rightarrow> ('k, 'v) HashTable \<Rightarrow> bool" where
  "table_inv mods ht =
     (mIndex ht < capCount
      \<and> length (table ht) = CAPACITIES ! mIndex ht
      \<and> chain_ok (probe_sequence mods (prober ht) (hash ht) (mIndex ht)) (table ht)
      \<and> count ht = card (dom (lookup mods ht))
      \<and> count ht \<le> used ht
      \<and> used ht = length (filter (\<lambda>s. s \<noteq> None) (table ht)))"

text \<open>No tombstones: every item is live and both counters agree.\<close>

definition tombfree :: "('k, 'v) HashTable \<Rightarrow> bool" where
  "tombfree ht = (used ht = count ht \<and> (\<forall>hi. Some hi \<in> set (table ht) \<longrightarrow> \<not> deleted hi))"

text \<open>What the proofs need of a \<^verbatim>\<open>probe\<close>: its result, and that it writes \<^verbatim>\<open>totalProbes_\<close> only.\<close>

definition probe_ok ::
  "nat list \<Rightarrow> (('k, 'v) HashTable \<Rightarrow> 'k \<Rightarrow> nat option \<times> ('k, 'v) HashTable) \<Rightarrow> bool" where
  "probe_ok mods prb =
     (\<forall>ht key.
        fst (prb ht key)
          = locate (probe_sequence mods (prober ht) (hash ht) (mIndex ht) key) (table ht) key
        \<and> (\<exists>tp. snd (prb ht key) = ht\<lparr>totalProbes := tp\<rparr>))"

text \<open>
  What a successful \<^verbatim>\<open>insert(p)\<close> establishes, for the induction over the recursion depth:
  the invariant, the same configuration, the map updated at the key of \<open>p\<close>, no lower
  \<^verbatim>\<open>mIndex_\<close>, and no new tombstone.
\<close>

definition same_config :: "('k, 'v) HashTable \<Rightarrow> ('k, 'v) HashTable \<Rightarrow> bool" where
  "same_config ht ht' =
     (prober ht' = prober ht \<and> hash ht' = hash ht \<and> resizeAlpha ht' = resizeAlpha ht)"

definition insert_post ::
  "nat list \<Rightarrow> ('k, 'v) HashTable \<Rightarrow> 'k \<times> 'v \<Rightarrow> ('k, 'v) HashTable \<Rightarrow> bool" where
  "insert_post mods ht p ht' =
     (table_inv mods ht' \<and> same_config ht ht' \<and> mIndex ht \<le> mIndex ht'
      \<and> lookup mods ht' = (lookup mods ht)(fst p \<mapsto> p)
      \<and> (tombfree ht \<longrightarrow> tombfree ht'))"

definition ins_ok ::
  "nat list \<Rightarrow> (('k, 'v) HashTable \<Rightarrow> 'k \<times> 'v \<Rightarrow> error option \<times> ('k, 'v) HashTable) \<Rightarrow> bool" where
  "ins_ok mods ins =
     (\<forall>ht p ht'. table_inv mods ht \<longrightarrow> ins ht p = (None, ht') \<longrightarrow> insert_post mods ht p ht')"

text \<open>
  The pairs still to be re-inserted by the loop of \<^verbatim>\<open>resize\<close> have distinct keys, and a key
  already in the new table has the same pair there.
\<close>

definition rehash_pre ::
  "nat list \<Rightarrow> ('k, 'v) HashItem option list \<Rightarrow> ('k, 'v) HashTable \<Rightarrow> bool" where
  "rehash_pre mods xs s =
     (\<forall>kv\<in>set (live_items xs). \<forall>kv'.
        (kv' \<in> set (live_items xs) \<or> lookup mods s (fst kv') = Some kv')
          \<longrightarrow> fst kv' = fst kv \<longrightarrow> kv' = kv)"

section \<open>The map view of the operations\<close>

text \<open>
  The effect of an operation that returns normally on the map a table stands for, and the
  outcome the caller sees, in terms of that map alone.
\<close>

fun abs_step :: "('k \<rightharpoonup> 'k \<times> 'v) \<Rightarrow> ('k, 'v) operation \<Rightarrow> ('k \<rightharpoonup> 'k \<times> 'v)" where
  "abs_step m (Insert k v) = m(k \<mapsto> (k, v))"
| "abs_step m (Remove k) = m(k := None)"
| "abs_step m (Find k) = m"
| "abs_step m (At k) = m"
| "abs_step m Size = m"
| "abs_step m Empty = m"

fun abs_outcome :: "('k \<rightharpoonup> 'k \<times> 'v) \<Rightarrow> ('k, 'v) operation \<Rightarrow> ('k, 'v) outcome" where
  "abs_outcome m (Insert k v) = Done"
| "abs_outcome m (Remove k) = Done"
| "abs_outcome m (Find k) = Found (m k)"
| "abs_outcome m (At k) = (case m k of None \<Rightarrow> Raised KeyNotFound | Some kv \<Rightarrow> Value (snd kv))"
| "abs_outcome m Size = Count (card (dom m))"
| "abs_outcome m Empty = Flag (card (dom m) = 0)"

fun abs_outcomes ::
  "('k \<rightharpoonup> 'k \<times> 'v) \<Rightarrow> ('k, 'v) operation list \<Rightarrow> ('k, 'v) outcome list" where
  "abs_outcomes m [] = []"
| "abs_outcomes m (x # xs) = abs_outcome m x # abs_outcomes (abs_step m x) xs"

definition refines ::
  "nat list \<Rightarrow>
   (('k, 'v) HashTable \<Rightarrow> ('k, 'v) operation \<Rightarrow> ('k, 'v) outcome \<times> ('k, 'v) HashTable) \<Rightarrow> bool" where
  "refines mods stp =
     (\<forall>ht x r ht'. table_inv mods ht \<longrightarrow> stp ht x = (r, ht') \<longrightarrow> \<not> fatal r \<longrightarrow>
        table_inv mods ht' \<and> same_config ht ht' \<and> mIndex ht \<le> mIndex ht'
        \<and> lookup mods ht' = abs_step (lookup mods ht) x
        \<and> r = abs_outcome (lookup mods ht) x)"


section \<open>Two families of concrete tables\<close>

text \<open>
  Tables with the linear prober, the identity hash and load factor 0 on rung \<open>i\<close> of the
  ladder: the empty one, and the one that holds the single pair \<open>(1, b)\<close>, which sits in slot 1.
  A run of operations that ends on rung 26 passes through them.
\<close>

definition empty_table_at :: "nat \<Rightarrow> nat \<Rightarrow> (nat, nat) HashTable" where
  "empty_table_at i tp =
     \<lparr>table = replicate (CAPACITIES ! i) None, prober = UseLinearProber, hash = id,
      resizeAlpha = 0, totalProbes = tp, mIndex = i, count = 0, used = 0\<rparr>"

definition single_pair_table :: "nat \<Rightarrow> nat \<Rightarrow> nat \<Rightarrow> (nat, nat) HashTable" where
  "single_pair_table i tp b =
     \<lparr>table = None # Some \<lparr>item = (1, b), deleted = False\<rparr> # replicate (CAPACITIES ! i - 2) None,
      prober = UseLinearProber, hash = id,
      resizeAlpha = 0, totalProbes = tp, mIndex = i, count = 1, used = 1\<rparr>"

section \<open>Facts about the probers\<close>

lemma length_CAPACITIES: "length CAPACITIES = 28"
  by (simp add: CAPACITIES_def)

lemma capCount_28: "capCount = 28"
  by (simp add: capCount_def length_CAPACITIES)

lemma init_mod_loop_cases:
  "init_mod_loop vs m md = md \<or> (init_mod_loop vs m md \<in> set vs \<and> init_mod_loop vs m md < m)"
proof (induction vs arbitrary: md)
  case Nil
  then show ?case by simp
next
  case (Cons a vs)
  show ?case
  proof (cases "a < m")
    case True
    then show ?thesis using Cons.IH [of a] by auto
  next
    case False
    then show ?thesis by simp
  qed
qed

lemma init_mod_loop_upper:
  "sorted_wrt (<) (md # vs) \<Longrightarrow> v \<in> set (md # vs) \<Longrightarrow> v < m \<Longrightarrow> v \<le> init_mod_loop vs m md"
proof (induction vs arbitrary: md v)
  case Nil
  then show ?case by simp
next
  case (Cons a vs)
  show ?case
  proof (cases "a < m")
    case True
    have s: "sorted_wrt (<) (a # vs)" using Cons.prems(1) by simp
    show ?thesis
    proof (cases "v = md")
      case True
      have "a \<le> init_mod_loop vs m a"
        using Cons.IH [of a a] s \<open>a < m\<close> by simp
      moreover have "md < a" using Cons.prems(1) by simp
      ultimately show ?thesis using True \<open>a < m\<close> by simp
    next
      case False
      then have "v \<in> set (a # vs)" using Cons.prems(2) by simp
      then show ?thesis using Cons.IH [of a v] s Cons.prems(3) \<open>a < m\<close> by simp
    qed
  next
    case False
    have "\<forall>x\<in>set (a # vs). md < x" using Cons.prems(1) by simp
    moreover have "\<forall>x\<in>set vs. a < x" using Cons.prems(1) by simp
    ultimately have "v = md" using Cons.prems(2,3) False by fastforce
    then show ?thesis using False by simp
  qed
qed

lemma DOUBLE_HASH_MOD_VALUES_ascending: "sorted_wrt (<) DOUBLE_HASH_MOD_VALUES"
  by (simp add: DOUBLE_HASH_MOD_VALUES_def)

lemma CAPACITIES_above_7: "c \<in> set CAPACITIES \<Longrightarrow> 7 < c"
  by (auto simp: CAPACITIES_def)

lemma init_mod_largest_below:
  assumes "sorted_wrt (<) vs" "vs \<noteq> []" "vs ! 0 < m"
  shows "init_mod vs m \<in> set vs \<and> init_mod vs m < m
         \<and> (\<forall>v\<in>set vs. v < m \<longrightarrow> v \<le> init_mod vs m)"
proof -
  obtain a rest where vs: "vs = a # rest" using assms(2) by (cases vs) auto
  have am: "a < m" using assms(3) vs by simp
  have eq: "init_mod vs m = init_mod_loop rest m a"
    using am by (simp add: init_mod_def vs)
  have up: "\<forall>v\<in>set vs. v < m \<longrightarrow> v \<le> init_mod vs m"
  proof
    fix v assume "v \<in> set vs"
    show "v < m \<longrightarrow> v \<le> init_mod vs m"
      using init_mod_loop_upper [of a rest v m] assms(1) \<open>v \<in> set vs\<close> eq
      by (simp add: vs)
  qed
  have "init_mod_loop rest m a = a \<or> (init_mod_loop rest m a \<in> set rest \<and> init_mod_loop rest m a < m)"
    by (rule init_mod_loop_cases)
  then have "init_mod vs m \<in> set vs \<and> init_mod vs m < m"
    using am eq by (auto simp: vs)
  then show ?thesis using up by blast
qed

lemma DOUBLE_HASH_MOD_VALUES_positive: "v \<in> set DOUBLE_HASH_MOD_VALUES \<Longrightarrow> 0 < v"
  by (auto simp: DOUBLE_HASH_MOD_VALUES_def)

lemma init_mod_on_ladder:
  assumes "c \<in> set CAPACITIES"
  shows "init_mod DOUBLE_HASH_MOD_VALUES c \<in> set DOUBLE_HASH_MOD_VALUES"
    and "init_mod DOUBLE_HASH_MOD_VALUES c < c"
    and "\<forall>v\<in>set DOUBLE_HASH_MOD_VALUES. v < c \<longrightarrow> v \<le> init_mod DOUBLE_HASH_MOD_VALUES c"
proof -
  have ne: "DOUBLE_HASH_MOD_VALUES \<noteq> []" by (simp add: DOUBLE_HASH_MOD_VALUES_def)
  have first: "DOUBLE_HASH_MOD_VALUES ! 0 < c"
    using CAPACITIES_above_7 [OF assms] by (simp add: DOUBLE_HASH_MOD_VALUES_def)
  note all = init_mod_largest_below [OF DOUBLE_HASH_MOD_VALUES_ascending ne first]
  show "init_mod DOUBLE_HASH_MOD_VALUES c \<in> set DOUBLE_HASH_MOD_VALUES" using all by blast
  show "init_mod DOUBLE_HASH_MOD_VALUES c < c" using all by blast
  show "\<forall>v\<in>set DOUBLE_HASH_MOD_VALUES. v < c \<longrightarrow> v \<le> init_mod DOUBLE_HASH_MOD_VALUES c"
    using all by blast
qed

text \<open>
  Claim C6. For every capacity \<open>c\<close> of the capacity ladder and every key, the modulus that
  \<^verbatim>\<open>DoubleHashProber::init\<close> selects from its ascending table is the largest table entry
  strictly below \<open>c\<close>, the step is \<open>m - (h2 key mod m)\<close>, and the step lies in \<open>[1, m]\<close>:
  the stride is never zero.
\<close>

theorem DoubleHashProber_init_step:
  assumes "c \<in> set CAPACITIES"
  shows "sorted_wrt (<) DOUBLE_HASH_MOD_VALUES
    \<and> init_mod DOUBLE_HASH_MOD_VALUES c = Max {v \<in> set DOUBLE_HASH_MOD_VALUES. v < c}
    \<and> dhstep (DoubleHashProber_init h2 start c key)
        = init_mod DOUBLE_HASH_MOD_VALUES c - (h2 key mod init_mod DOUBLE_HASH_MOD_VALUES c)
    \<and> 1 \<le> dhstep (DoubleHashProber_init h2 start c key)
    \<and> dhstep (DoubleHashProber_init h2 start c key) \<le> init_mod DOUBLE_HASH_MOD_VALUES c"
proof -
  let ?md = "init_mod DOUBLE_HASH_MOD_VALUES c"
  note m = init_mod_on_ladder [OF assms]
  have mx: "Max {v \<in> set DOUBLE_HASH_MOD_VALUES. v < c} = ?md"
  proof (rule Max_eqI)
    show "finite {v \<in> set DOUBLE_HASH_MOD_VALUES. v < c}" by simp
    show "\<And>y. y \<in> {v \<in> set DOUBLE_HASH_MOD_VALUES. v < c} \<Longrightarrow> y \<le> ?md" using m(3) by simp
    show "?md \<in> {v \<in> set DOUBLE_HASH_MOD_VALUES. v < c}" using m(1,2) by simp
  qed
  have pos: "0 < ?md" using DOUBLE_HASH_MOD_VALUES_positive [OF m(1)] .
  have step: "dhstep (DoubleHashProber_init h2 start c key) = ?md - (h2 key mod ?md)"
    by (simp add: DoubleHashProber_init_def Let_def)
  have "h2 key mod ?md < ?md" using pos by simp
  then have "1 \<le> ?md - (h2 key mod ?md)" "?md - (h2 key mod ?md) \<le> ?md" by simp_all
  then show ?thesis
    using DOUBLE_HASH_MOD_VALUES_ascending mx step by simp
qed

theorem DoubleHashProber_init_step_witness:
  "(23::nat) \<in> set CAPACITIES
    \<and> init_mod DOUBLE_HASH_MOD_VALUES 23 = Max {v \<in> set DOUBLE_HASH_MOD_VALUES. v < 23}
    \<and> dhstep (DoubleHashProber_init (\<lambda>k::nat. k) 0 23 40) = 17
    \<and> 1 \<le> dhstep (DoubleHashProber_init (\<lambda>k::nat. k) 0 23 40)"
proof -
  have c: "(23::nat) \<in> set CAPACITIES" by (simp add: CAPACITIES_def)
  have md: "init_mod DOUBLE_HASH_MOD_VALUES 23 = 19"
    by (simp add: init_mod_def DOUBLE_HASH_MOD_VALUES_def)
  show ?thesis
    using c DoubleHashProber_init_step [OF c, of "\<lambda>k::nat. k" 0 40] by (simp add: md)
qed

text \<open>
  Claim C8, as stated: calling \<^verbatim>\<open>next\<close> after it has signalled exhaustion is a
  \<open>ProberMisuse\<close> error. It is not: a linear prober over one slot returns slot 0, then
  \<^verbatim>\<open>npos\<close>, and the call after that returns \<^verbatim>\<open>npos\<close> again, without any exception.
\<close>

theorem next_after_exhaustion_counterexample:
  "fst (LinearProber_next (Prober_init 0 1 ())) = Some 0
   \<and> fst (LinearProber_next (snd (LinearProber_next (Prober_init 0 1 ())))) = None
   \<and> call_next (LinearObject
        (snd (LinearProber_next (snd (LinearProber_next (Prober_init 0 1 ()))))))
      = Inr None
   \<and> call_next (LinearObject
        (snd (LinearProber_next (snd (LinearProber_next (Prober_init 0 1 ()))))))
      \<noteq> Inl ProberMisuse"
  by (simp add: LinearProber_next_def Prober_init_def)

text \<open>
  Claim C8, amended: the base prober's \<^verbatim>\<open>next\<close> always raises \<open>ProberMisuse\<close>; the
  linear and the double-hash prober never raise: once \<^verbatim>\<open>next\<close> has returned \<^verbatim>\<open>npos\<close>, every
  further call returns \<^verbatim>\<open>npos\<close> again and leaves the prober unchanged.
\<close>

theorem next_misuse_only_on_base:
  "Prober_next b = Inl ProberMisuse
   \<and> call_next (BaseObject b) = Inl ProberMisuse
   \<and> (fst (LinearProber_next p) = None \<longrightarrow>
        snd (LinearProber_next p) = p \<and> call_next (LinearObject (snd (LinearProber_next p))) = Inr None)
   \<and> (fst (DoubleHashProber_next d) = None \<longrightarrow>
        snd (DoubleHashProber_next d) = d
        \<and> call_next (DoubleHashObject (snd (DoubleHashProber_next d))) = Inr None)"
  by (simp add: Prober_next_def LinearProber_next_def DoubleHashProber_next_def)

theorem next_misuse_only_on_base_witness:
  "fst (LinearProber_next \<lparr>p_start = 0, p_m = 1, numProbes = 1\<rparr>) = None
   \<and> fst (DoubleHashProber_next \<lparr>p_start = 0, p_m = 1, numProbes = 1, dhstep = 3\<rparr>) = None
   \<and> call_next (LinearObject (snd (LinearProber_next \<lparr>p_start = 0, p_m = 1, numProbes = 1\<rparr>)))
       = Inr None
   \<and> call_next (DoubleHashObject
        (snd (DoubleHashProber_next \<lparr>p_start = 0, p_m = 1, numProbes = 1, dhstep = 3\<rparr>)))
       = Inr None
   \<and> call_next (BaseObject \<lparr>p_start = 0, p_m = 1, numProbes = 1\<rparr>) = Inl ProberMisuse"
proof -
  have l: "fst (LinearProber_next \<lparr>p_start = 0, p_m = 1, numProbes = 1\<rparr>) = None"
    by (simp add: LinearProber_next_def)
  have d: "fst (DoubleHashProber_next \<lparr>p_start = 0, p_m = 1, numProbes = 1, dhstep = 3\<rparr>) = None"
    by (simp add: DoubleHashProber_next_def)
  show ?thesis
    using l d
      next_misuse_only_on_base [of "\<lparr>p_start = 0, p_m = 1, numProbes = 1\<rparr>"
        "\<lparr>p_start = 0, p_m = 1, numProbes = 1\<rparr>"
        "\<lparr>p_start = 0, p_m = 1, numProbes = 1, dhstep = 3\<rparr>"]
    by simp
qed

lemma find_mono:
  "List.find P xs = Some x \<Longrightarrow> (\<And>y. y \<in> set xs \<Longrightarrow> P' y \<Longrightarrow> P y) \<Longrightarrow> P' x
   \<Longrightarrow> List.find P' xs = Some x"
  by (induction xs) (auto split: if_splits)

lemma find_SomeD: "List.find P xs = Some x \<Longrightarrow> P x \<and> x \<in> set xs"
  by (induction xs) (auto split: if_splits)

lemma locate_SomeD: "locate sq tbl k = Some l \<Longrightarrow> probe_stop tbl k l \<and> l \<in> set sq"
  unfolding locate_def by (rule find_SomeD)

lemma option_eq_by_Some: "(\<And>x. a = Some x \<longleftrightarrow> b = Some x) \<Longrightarrow> a = b"
  by (cases a; cases b) auto

lemma probe_indices_range: "l \<in> set (probe_indices s m stp) \<Longrightarrow> l < m"
  by (auto simp: probe_indices_def)

lemma probe_sequence_range: "l \<in> set (probe_sequence mods pk h i k) \<Longrightarrow> l < CAPACITIES ! i"
  unfolding probe_sequence_def by (rule probe_indices_range)

lemma probe_stop_update:
  "l < length tbl \<Longrightarrow>
   probe_stop (tbl[l := Some x]) k y
     = (if y = l then \<not> deleted x \<and> fst (item x) = k else probe_stop tbl k y)"
  by (simp add: probe_stop_def)

lemma probe_stop_None: "tbl ! l = None \<Longrightarrow> probe_stop tbl k l"
  by (simp add: probe_stop_def)

lemma probe_stop_Some: "tbl ! l = Some hi \<Longrightarrow> probe_stop tbl k l = (\<not> deleted hi \<and> fst (item hi) = k)"
  by (simp add: probe_stop_def)

lemma lookup_in_Some_iff:
  assumes c: "chain_ok sq tbl" and r: "\<And>k l. l \<in> set (sq k) \<Longrightarrow> l < length tbl"
  shows "lookup_in (sq k) tbl k = Some kv
         \<longleftrightarrow> (\<exists>i<length tbl. \<exists>hi. tbl ! i = Some hi \<and> \<not> deleted hi \<and> item hi = kv \<and> fst kv = k)"
proof
  assume "lookup_in (sq k) tbl k = Some kv"
  then obtain l hi where l: "locate (sq k) tbl k = Some l" and hi: "tbl ! l = Some hi" "item hi = kv"
    by (auto simp: lookup_in_def split: option.splits)
  from locate_SomeD [OF l] have "probe_stop tbl k l" "l < length tbl" using r by auto
  then show "\<exists>i<length tbl. \<exists>hi. tbl ! i = Some hi \<and> \<not> deleted hi \<and> item hi = kv \<and> fst kv = k"
    using hi by (auto simp: probe_stop_Some)
next
  assume "\<exists>i<length tbl. \<exists>hi. tbl ! i = Some hi \<and> \<not> deleted hi \<and> item hi = kv \<and> fst kv = k"
  then obtain i hi where i: "i < length tbl" "tbl ! i = Some hi" "\<not> deleted hi" "item hi = kv" "fst kv = k"
    by blast
  then have "locate (sq k) tbl k = Some i" using c unfolding chain_ok_def by blast
  then show "lookup_in (sq k) tbl k = Some kv" using i by (simp add: lookup_in_def)
qed

lemma chain_ok_place:
  assumes c: "chain_ok sq tbl" and l: "locate (sq k) tbl k = Some l" "tbl ! l = None" "l < length tbl"
  shows "chain_ok sq (tbl[l := Some \<lparr>item = (k, v), deleted = False\<rparr>])"
  unfolding chain_ok_def
proof (intro allI impI)
  fix i hi
  let ?t = "tbl[l := Some \<lparr>item = (k, v), deleted = False\<rparr>]"
  assume i: "i < length ?t" "?t ! i = Some hi" "\<not> deleted hi"
  show "locate (sq (fst (item hi))) ?t (fst (item hi)) = Some i"
  proof (cases "i = l")
    case True
    then have "fst (item hi) = k" using i l(3) by auto
    moreover have "List.find (probe_stop ?t k) (sq k) = Some l"
      using l(1) unfolding locate_def
      by (rule find_mono) (auto simp: probe_stop_update l probe_stop_None split: if_splits)
    ultimately show ?thesis using True by (simp add: locate_def)
  next
    case False
    then have old: "tbl ! i = Some hi" "i < length tbl" using i by auto
    then have f: "locate (sq (fst (item hi))) tbl (fst (item hi)) = Some i"
      using c i(3) unfolding chain_ok_def by blast
    from locate_SomeD [OF f] have "probe_stop tbl (fst (item hi)) i" by simp
    then have "List.find (probe_stop ?t (fst (item hi))) (sq (fst (item hi))) = Some i"
      using f False unfolding locate_def
      by (elim find_mono) (auto simp: probe_stop_update l probe_stop_None split: if_splits)
    then show ?thesis by (simp add: locate_def)
  qed
qed

lemma probe_stop_overwrite:
  assumes "tbl ! l = Some hi"
  shows "probe_stop (tbl[l := Some (hi\<lparr>item := (fst (item hi), v)\<rparr>)]) k y = probe_stop tbl k y"
proof (cases "l < length tbl")
  case True
  then show ?thesis using assms by (auto simp: probe_stop_update probe_stop_Some)
next
  case False
  then show ?thesis by (simp add: list_update_beyond)
qed

lemma locate_overwrite:
  assumes "tbl ! l = Some hi"
  shows "locate sq (tbl[l := Some (hi\<lparr>item := (fst (item hi), v)\<rparr>)]) k = locate sq tbl k"
  unfolding locate_def using probe_stop_overwrite [OF assms] by (intro find_cong) auto

lemma chain_ok_overwrite:
  assumes c: "chain_ok sq tbl" and l: "tbl ! l = Some hi"
  shows "chain_ok sq (tbl[l := Some (hi\<lparr>item := (fst (item hi), v)\<rparr>)])"
  unfolding chain_ok_def
proof (intro allI impI)
  fix i hj
  let ?t = "tbl[l := Some (hi\<lparr>item := (fst (item hi), v)\<rparr>)]"
  assume i: "i < length ?t" "?t ! i = Some hj" "\<not> deleted hj"
  have "\<exists>ho. tbl ! i = Some ho \<and> \<not> deleted ho \<and> fst (item ho) = fst (item hj)"
    using i l by (cases "i = l") auto
  then have "locate (sq (fst (item hj))) tbl (fst (item hj)) = Some i"
    using c i(1) unfolding chain_ok_def by auto
  then show "locate (sq (fst (item hj))) ?t (fst (item hj)) = Some i"
    by (simp add: locate_overwrite [OF l])
qed

lemma chain_ok_tombstone:
  assumes c: "chain_ok sq tbl" and l: "tbl ! l = Some hi" "l < length tbl"
  shows "chain_ok sq (tbl[l := Some (hi\<lparr>deleted := True\<rparr>)])"
  unfolding chain_ok_def
proof (intro allI impI)
  fix i hj
  let ?t = "tbl[l := Some (hi\<lparr>deleted := True\<rparr>)]"
  assume i: "i < length ?t" "?t ! i = Some hj" "\<not> deleted hj"
  have il: "i \<noteq> l" using i l by auto
  then have old: "tbl ! i = Some hj" "i < length tbl" using i by auto
  then have f: "locate (sq (fst (item hj))) tbl (fst (item hj)) = Some i"
    using c i(3) unfolding chain_ok_def by blast
  from locate_SomeD [OF f] have "probe_stop tbl (fst (item hj)) i" by simp
  then have "List.find (probe_stop ?t (fst (item hj))) (sq (fst (item hj))) = Some i"
    using f il unfolding locate_def
    by (elim find_mono) (auto simp: probe_stop_update l split: if_splits)
  then show "locate (sq (fst (item hj))) ?t (fst (item hj)) = Some i"
    by (simp add: locate_def)
qed

lemma lookup_in_cong_other:
  assumes c: "chain_ok sq t" and c': "chain_ok sq t'"
    and r: "\<And>k l. l \<in> set (sq k) \<Longrightarrow> l < length t" and len: "length t' = length t"
    and same: "\<And>i hi. i < length t \<Longrightarrow> \<not> deleted hi \<Longrightarrow> fst (item hi) = k'
                 \<Longrightarrow> (t' ! i = Some hi) = (t ! i = Some hi)"
  shows "lookup_in (sq k') t' k' = lookup_in (sq k') t k'"
proof (rule option_eq_by_Some)
  fix kv
  have r': "\<And>k l. l \<in> set (sq k) \<Longrightarrow> l < length t'" using r len by simp
  have "(\<exists>i<length t'. \<exists>hi. t' ! i = Some hi \<and> \<not> deleted hi \<and> item hi = kv \<and> fst kv = k')
        \<longleftrightarrow> (\<exists>i<length t. \<exists>hi. t ! i = Some hi \<and> \<not> deleted hi \<and> item hi = kv \<and> fst kv = k')"
    (is "?L \<longleftrightarrow> ?R")
  proof
    assume ?L
    then obtain i hi where "i < length t" "t' ! i = Some hi" "\<not> deleted hi" "item hi = kv" "fst kv = k'"
      using len by auto
    moreover from this have "t ! i = Some hi" using same [of i hi] by simp
    ultimately show ?R by blast
  next
    assume ?R
    then obtain i hi where "i < length t" "t ! i = Some hi" "\<not> deleted hi" "item hi = kv" "fst kv = k'"
      by auto
    moreover from this have "t' ! i = Some hi" using same [of i hi] by simp
    ultimately show ?L using len by auto
  qed
  moreover have "lookup_in (sq k') t' k' = Some kv \<longleftrightarrow> ?L"
    by (rule lookup_in_Some_iff [OF c' r'])
  moreover have "lookup_in (sq k') t k' = Some kv \<longleftrightarrow> ?R"
    by (rule lookup_in_Some_iff [OF c r])
  ultimately show "lookup_in (sq k') t' k' = Some kv \<longleftrightarrow> lookup_in (sq k') t k' = Some kv"
    by blast
qed

lemma chain_unique:
  assumes "chain_ok sq tbl" "locate (sq k) tbl k = Some l"
    "i < length tbl" "tbl ! i = Some hj" "\<not> deleted hj" "fst (item hj) = k"
  shows "i = l"
proof -
  have "locate (sq (fst (item hj))) tbl (fst (item hj)) = Some i"
    using assms(1,3,4,5) unfolding chain_ok_def by blast
  then show ?thesis using assms(2,6) by simp
qed

lemma lookup_in_place:
  assumes c: "chain_ok sq tbl" and r: "\<And>k l. l \<in> set (sq k) \<Longrightarrow> l < length tbl"
    and l: "locate (sq k) tbl k = Some l" "tbl ! l = None"
  shows "lookup_in (sq k') (tbl[l := Some \<lparr>item = (k, v), deleted = False\<rparr>]) k'
         = (if k' = k then Some (k, v) else lookup_in (sq k') tbl k')"
proof -
  let ?t = "tbl[l := Some \<lparr>item = (k, v), deleted = False\<rparr>]"
  have ll: "l < length tbl" using locate_SomeD [OF l(1)] r by blast
  have c': "chain_ok sq ?t" using chain_ok_place [OF c l ll] .
  show ?thesis
  proof (cases "k' = k")
    case True
    have "?t ! l = Some \<lparr>item = (k, v), deleted = False\<rparr>" using ll by simp
    then have "locate (sq k) ?t k = Some l"
      using c' ll unfolding chain_ok_def by fastforce
    then show ?thesis using True ll by (simp add: lookup_in_def)
  next
    case False
    have same: "(?t ! i = Some hi) = (tbl ! i = Some hi)"
      if "i < length tbl" "\<not> deleted hi" "fst (item hi) = k'" for i hi
      using that False l(2) ll by (cases "i = l") auto
    have "lookup_in (sq k') ?t k' = lookup_in (sq k') tbl k'"
      by (rule lookup_in_cong_other [OF c c' r _ same]) auto
    then show ?thesis using False by simp
  qed
qed

lemma lookup_in_overwrite:
  assumes c: "chain_ok sq tbl" and r: "\<And>k l. l \<in> set (sq k) \<Longrightarrow> l < length tbl"
    and l: "locate (sq k) tbl k = Some l" "tbl ! l = Some hi"
  shows "lookup_in (sq k') (tbl[l := Some (hi\<lparr>item := (fst (item hi), v)\<rparr>)]) k'
         = (if k' = k then Some (k, v) else lookup_in (sq k') tbl k')"
proof -
  let ?t = "tbl[l := Some (hi\<lparr>item := (fst (item hi), v)\<rparr>)]"
  have ll: "l < length tbl" using locate_SomeD [OF l(1)] r by blast
  have live: "\<not> deleted hi" "fst (item hi) = k"
    using locate_SomeD [OF l(1)] l(2) by (auto simp: probe_stop_Some)
  have c': "chain_ok sq ?t" using chain_ok_overwrite [OF c l(2)] .
  show ?thesis
  proof (cases "k' = k")
    case True
    have "locate (sq k) ?t k = Some l" using l(1) by (simp add: locate_overwrite [OF l(2)])
    then show ?thesis using True ll live by (simp add: lookup_in_def)
  next
    case False
    have same: "(?t ! i = Some hj) = (tbl ! i = Some hj)"
      if "i < length tbl" "\<not> deleted hj" "fst (item hj) = k'" for i hj
      using that False l(2) ll live by (cases "i = l") auto
    have "lookup_in (sq k') ?t k' = lookup_in (sq k') tbl k'"
      by (rule lookup_in_cong_other [OF c c' r _ same]) auto
    then show ?thesis using False by simp
  qed
qed

lemma lookup_in_tombstone:
  assumes c: "chain_ok sq tbl" and r: "\<And>k l. l \<in> set (sq k) \<Longrightarrow> l < length tbl"
    and l: "locate (sq k) tbl k = Some l" "tbl ! l = Some hi"
  shows "lookup_in (sq k') (tbl[l := Some (hi\<lparr>deleted := True\<rparr>)]) k'
         = (if k' = k then None else lookup_in (sq k') tbl k')"
proof -
  let ?t = "tbl[l := Some (hi\<lparr>deleted := True\<rparr>)]"
  have ll: "l < length tbl" using locate_SomeD [OF l(1)] r by blast
  have live: "\<not> deleted hi" "fst (item hi) = k"
    using locate_SomeD [OF l(1)] l(2) by (auto simp: probe_stop_Some)
  have c': "chain_ok sq ?t" using chain_ok_tombstone [OF c l(2) ll] .
  have r': "\<And>k l. l \<in> set (sq k) \<Longrightarrow> l < length ?t" using r by simp
  show ?thesis
  proof (cases "k' = k")
    case True
    have "lookup_in (sq k) ?t k = None"
    proof (rule ccontr)
      assume "lookup_in (sq k) ?t k \<noteq> None"
      then obtain kv where "lookup_in (sq k) ?t k = Some kv" by auto
      then have "\<exists>i<length ?t. \<exists>hj. ?t ! i = Some hj \<and> \<not> deleted hj \<and> item hj = kv \<and> fst kv = k"
        by (simp only: lookup_in_Some_iff [OF c' r'])
      then obtain i hj where i: "i < length ?t" "?t ! i = Some hj" "\<not> deleted hj" "fst (item hj) = k"
        by blast
      then have il: "i \<noteq> l" using ll by auto
      then have "tbl ! i = Some hj" "i < length tbl" using i by auto
      then have "i = l" using chain_unique [OF c l(1)] i(3,4) by blast
      then show False using il by simp
    qed
    then show ?thesis using True by simp
  next
    case False
    have same: "(?t ! i = Some hj) = (tbl ! i = Some hj)"
      if "i < length tbl" "\<not> deleted hj" "fst (item hj) = k'" for i hj
      using that False l(2) ll live by (cases "i = l") auto
    have "lookup_in (sq k') ?t k' = lookup_in (sq k') tbl k'"
      by (rule lookup_in_cong_other [OF c c' r _ same]) auto
    then show ?thesis using False by simp
  qed
qed

lemma prober_next_Linear:
  "prober_next (LinearInstance p) =
     (if p_m p \<le> numProbes p then (None, LinearInstance p)
      else (Some ((p_start p + numProbes p) mod p_m p),
            LinearInstance (p\<lparr>numProbes := numProbes p + 1\<rparr>)))"
  by (simp add: LinearProber_next_def)

lemma prober_next_DoubleHash:
  "prober_next (DoubleHashInstance p) =
     (if p_m p \<le> numProbes p then (None, DoubleHashInstance p)
      else (Some ((p_start p + numProbes p * dhstep p) mod p_m p),
            DoubleHashInstance (p\<lparr>numProbes := numProbes p + 1\<rparr>)))"
  by (simp add: DoubleHashProber_next_def)

lemma prober_next_remaining:
  "prober_next pr = (None, pr') \<Longrightarrow> remaining_indices pr = []"
  "prober_next pr = (Some loc, pr') \<Longrightarrow> remaining_indices pr = loc # remaining_indices pr'"
proof -
  have u: "[a..<b] = a # [a + 1..<b]" if "a < b" for a b :: nat
    using that by (simp add: upt_conv_Cons)
  show "prober_next pr = (None, pr') \<Longrightarrow> remaining_indices pr = []"
    by (cases pr)
       (auto simp: LinearProber_next_def DoubleHashProber_next_def split: if_splits)
  show "prober_next pr = (Some loc, pr') \<Longrightarrow> remaining_indices pr = loc # remaining_indices pr'"
  proof (cases pr)
    case (LinearInstance p)
    assume "prober_next pr = (Some loc, pr')"
    then have *: "numProbes p < p_m p" "loc = (p_start p + numProbes p) mod p_m p"
      "pr' = LinearInstance (p\<lparr>numProbes := numProbes p + 1\<rparr>)"
      using LinearInstance by (auto simp: LinearProber_next_def split: if_splits)
    show ?thesis unfolding LinearInstance *(2,3) using u [OF *(1)] by simp
  next
    case (DoubleHashInstance p)
    assume "prober_next pr = (Some loc, pr')"
    then have *: "numProbes p < p_m p" "loc = (p_start p + numProbes p * dhstep p) mod p_m p"
      "pr' = DoubleHashInstance (p\<lparr>numProbes := numProbes p + 1\<rparr>)"
      using DoubleHashInstance by (auto simp: DoubleHashProber_next_def split: if_splits)
    show ?thesis unfolding DoubleHashInstance *(2,3) using u [OF *(1)] by simp
  qed
qed

lemma probe_loop_find:
  "fst (probe_loop tbl key pr tp) = List.find (probe_stop tbl key) (remaining_indices pr)"
proof (induction tbl key pr tp rule: probe_loop.induct)
  case (1 tbl key pr tp)
  obtain r pr' where n: "prober_next pr = (r, pr')" by (cases "prober_next pr")
  show ?case
  proof (cases r)
    case None
    then show ?thesis
      using n prober_next_remaining(1) [of pr pr']
      by (subst probe_loop.simps) simp
  next
    case (Some loc)
    note rem = prober_next_remaining(2) [of pr loc pr']
    show ?thesis
    proof (cases "probe_stop tbl key loc")
      case True
      then show ?thesis using n Some rem by (subst probe_loop.simps) simp
    next
      case False
      have "fst (probe_loop tbl key pr' (tp + 1))
              = List.find (probe_stop tbl key) (remaining_indices pr')"
        using "1.IH" [OF n [symmetric] Some False] .
      then show ?thesis using n Some rem False by (subst probe_loop.simps) simp
    qed
  qed
qed

lemma remaining_indices_init:
  "remaining_indices (prober_init pk start m key)
     = probe_indices start m (stride DOUBLE_HASH_MOD_VALUES pk m key)"
  by (cases pk)
     (simp_all add: Prober_init_def DoubleHashProber_init_def probe_indices_def stride_def Let_def)

lemma fst_probe:
  "fst (probe ht key)
     = locate (probe_sequence DOUBLE_HASH_MOD_VALUES (prober ht) (hash ht) (mIndex ht) key)
         (table ht) key"
  by (simp add: probe_def Let_def split_beta probe_loop_find remaining_indices_init
        locate_def probe_sequence_def)

lemma snd_probe: "snd (probe ht key) = ht\<lparr>totalProbes := snd (probe_loop (table ht) key
     (prober_init (prober ht) (hash ht key mod (CAPACITIES ! mIndex ht)) (CAPACITIES ! mIndex ht) key)
     (totalProbes ht))\<rparr>"
  by (simp add: probe_def Let_def split_beta)

lemma probe_ok_probe: "probe_ok DOUBLE_HASH_MOD_VALUES probe"
  unfolding probe_ok_def by (intro allI conjI exI) (rule fst_probe, rule snd_probe)

lemma sizes_eq: "sizes = CAPACITIES"
  by (simp add: sizes_def CAPACITIES_def)

lemma length_remaining_indices: "length (remaining_indices pr) = probes_left pr"
  by (cases pr) simp_all

lemma probe_loop_p0_find:
  "fst (probe_loop_p0 tbl key pr i n tp)
     = List.find (probe_stop tbl key) (take (n - i) (remaining_indices pr))"
proof (induction tbl key pr i n tp rule: probe_loop_p0.induct)
  case (1 tbl key pr i n tp)
  show ?case
  proof (cases "i < n")
    case False
    then show ?thesis by (subst probe_loop_p0.simps) simp
  next
    case True
    then have d: "n - i = Suc (n - (i + 1))" by simp
    obtain r pr' where nx: "prober_next pr = (r, pr')" by (cases "prober_next pr")
    show ?thesis
    proof (cases r)
      case None
      then show ?thesis
        using nx prober_next_remaining(1) [of pr pr'] True
        by (subst probe_loop_p0.simps) simp
    next
      case (Some loc)
      note rem = prober_next_remaining(2) [of pr loc pr']
      show ?thesis
      proof (cases "probe_stop tbl key loc")
        case True
        then show ?thesis using nx Some rem \<open>i < n\<close> d
          by (subst probe_loop_p0.simps) simp
      next
        case False
        have "fst (probe_loop_p0 tbl key pr' (i + 1) n (tp + 1))
                = List.find (probe_stop tbl key) (take (n - (i + 1)) (remaining_indices pr'))"
          using "1.IH" [OF True nx [symmetric] Some False] .
        then show ?thesis using nx Some rem False True d
          by (subst probe_loop_p0.simps) simp
      qed
    qed
  qed
qed

lemma remaining_indices_init_p0:
  "remaining_indices (prober_init_p0 pk start m key)
     = probe_indices start m (stride modVals pk m key)"
  by (cases pk)
     (simp_all add: Prober_init_def DoubleHashProber_init_p0_def probe_indices_def stride_def Let_def)

lemma fst_probe_p0:
  "fst (probe_p0 ht key)
     = locate (probe_sequence modVals (prober ht) (hash ht) (mIndex ht) key) (table ht) key"
proof -
  have "length (probe_indices s m stp) = m" for s m stp by (simp add: probe_indices_def)
  then show ?thesis
    by (simp add: probe_p0_def Let_def split_beta probe_loop_p0_find remaining_indices_init_p0
        locate_def probe_sequence_def sizes_eq)
qed

lemma probe_ok_probe_p0: "probe_ok modVals probe_p0"
  unfolding probe_ok_def
proof (intro allI conjI)
  fix ht :: "('a, 'b) HashTable" and key
  show "fst (probe_p0 ht key)
     = locate (probe_sequence modVals (prober ht) (hash ht) (mIndex ht) key) (table ht) key"
    by (rule fst_probe_p0)
  have "snd (probe_p0 ht key) = ht\<lparr>totalProbes := totalProbes (snd (probe_p0 ht key))\<rparr>"
    by (simp add: probe_p0_def Let_def split_beta)
  then show "\<exists>tp. snd (probe_p0 ht key) = ht\<lparr>totalProbes := tp\<rparr>" ..
qed

lemma table_inv_range:
  "table_inv mods ht \<Longrightarrow> l \<in> set (probe_sequence mods (prober ht) (hash ht) (mIndex ht) k)
   \<Longrightarrow> l < length (table ht)"
  using probe_sequence_range [of l mods "prober ht" "hash ht" "mIndex ht" k]
  by (simp add: table_inv_def)

lemma lookup_Some_iff:
  assumes "table_inv mods ht"
  shows "lookup mods ht k = Some kv
         \<longleftrightarrow> (\<exists>i<length (table ht). \<exists>hi. table ht ! i = Some hi \<and> \<not> deleted hi
                  \<and> item hi = kv \<and> fst kv = k)"
proof -
  have c: "chain_ok (probe_sequence mods (prober ht) (hash ht) (mIndex ht)) (table ht)"
    using assms by (simp add: table_inv_def)
  show ?thesis
    unfolding lookup_def
    by (rule lookup_in_Some_iff [OF c]) (rule table_inv_range [OF assms])
qed

lemma lookup_key: "table_inv mods ht \<Longrightarrow> lookup mods ht k = Some kv \<Longrightarrow> fst kv = k"
  by (auto simp: lookup_Some_iff)

lemma mem_live_items:
  "kv \<in> set (live_items tbl)
   \<longleftrightarrow> (\<exists>i<length tbl. \<exists>hi. tbl ! i = Some hi \<and> \<not> deleted hi \<and> item hi = kv)"
proof -
  have "kv \<in> set (live_items tbl)
        \<longleftrightarrow> (\<exists>hi. Some hi \<in> set tbl \<and> \<not> deleted hi \<and> item hi = kv)"
    by (induction tbl) (auto simp: live_items_def split: option.splits)
  then show ?thesis by (metis in_set_conv_nth)
qed

lemma lookup_live_items:
  "table_inv mods ht \<Longrightarrow>
   lookup mods ht k = Some kv \<longleftrightarrow> kv \<in> set (live_items (table ht)) \<and> fst kv = k"
  unfolding lookup_Some_iff mem_live_items by blast

lemma finite_dom_lookup:
  assumes "table_inv mods ht"
  shows "finite (dom (lookup mods ht))"
proof -
  have "dom (lookup mods ht) \<subseteq> fst ` set (live_items (table ht))"
  proof
    fix k assume "k \<in> dom (lookup mods ht)"
    then obtain kv where "lookup mods ht k = Some kv" by auto
    then have "kv \<in> set (live_items (table ht))" "fst kv = k"
      using lookup_live_items [OF assms] by auto
    then show "k \<in> fst ` set (live_items (table ht))" by force
  qed
  then show ?thesis by (rule finite_subset) simp
qed

lemma probe_okD:
  assumes "probe_ok mods prb"
  obtains tp where
    "prb ht k = (locate (probe_sequence mods (prober ht) (hash ht) (mIndex ht) k) (table ht) k,
                 ht\<lparr>totalProbes := tp\<rparr>)"
proof -
  from assms obtain tp where
    "fst (prb ht k) = locate (probe_sequence mods (prober ht) (hash ht) (mIndex ht) k) (table ht) k"
    "snd (prb ht k) = ht\<lparr>totalProbes := tp\<rparr>"
    unfolding probe_ok_def by blast
  then have "prb ht k = (locate (probe_sequence mods (prober ht) (hash ht) (mIndex ht) k) (table ht) k,
                 ht\<lparr>totalProbes := tp\<rparr>)"
    by (metis prod.collapse)
  then show ?thesis by (rule that)
qed

lemma insert_at_probe_cases:
  assumes "probe_ok mods prb"
  obtains
    (full) tp where
      "locate (probe_sequence mods (prober ht) (hash ht) (mIndex ht) k) (table ht) k = None"
      "insert_at_probe prb ht (k, v) = (Some TableFull, ht\<lparr>totalProbes := tp\<rparr>)"
  | (fresh) l tp where
      "locate (probe_sequence mods (prober ht) (hash ht) (mIndex ht) k) (table ht) k = Some l"
      "table ht ! l = None"
      "insert_at_probe prb ht (k, v)
         = (None, ht\<lparr>totalProbes := tp,
                      table := (table ht)[l := Some \<lparr>item = (k, v), deleted = False\<rparr>],
                      count := count ht + 1, used := used ht + 1\<rparr>)"
  | (over) l hi tp where
      "locate (probe_sequence mods (prober ht) (hash ht) (mIndex ht) k) (table ht) k = Some l"
      "table ht ! l = Some hi"
      "insert_at_probe prb ht (k, v)
         = (None, ht\<lparr>totalProbes := tp,
                      table := (table ht)[l := Some (hi\<lparr>item := (fst (item hi), v)\<rparr>)]\<rparr>)"
proof -
  obtain tp where p: "prb ht k
      = (locate (probe_sequence mods (prober ht) (hash ht) (mIndex ht) k) (table ht) k,
         ht\<lparr>totalProbes := tp\<rparr>)"
    using probe_okD [OF assms] by blast
  show thesis
  proof (cases "locate (probe_sequence mods (prober ht) (hash ht) (mIndex ht) k) (table ht) k")
    case None
    then show ?thesis using p by (intro full [of tp]) (simp_all add: insert_at_probe_def)
  next
    case (Some l)
    show ?thesis
    proof (cases "table ht ! l")
      case None
      then show ?thesis using p Some
        by (intro fresh [of l tp]) (simp_all add: insert_at_probe_def)
    next
      case (Some hi)
      then show ?thesis using p \<open>locate _ _ _ = Some l\<close>
        by (intro over [of l hi tp]) (simp_all add: insert_at_probe_def)
    qed
  qed
qed

lemma nonnull_place:
  "l < length tbl \<Longrightarrow> tbl ! l = None \<Longrightarrow>
   length (filter (\<lambda>s. s \<noteq> None) (tbl[l := Some x])) = Suc (length (filter (\<lambda>s. s \<noteq> None) tbl))"
proof (induction tbl arbitrary: l)
  case Nil
  then show ?case by simp
next
  case (Cons a tbl)
  then show ?case by (cases l) auto
qed

lemma nonnull_replace:
  "tbl ! l = Some y \<Longrightarrow>
   length (filter (\<lambda>s. s \<noteq> None) (tbl[l := Some x])) = length (filter (\<lambda>s. s \<noteq> None) tbl)"
proof (induction tbl arbitrary: l)
  case Nil
  then show ?case by simp
next
  case (Cons a tbl)
  then show ?case by (cases l) auto
qed

lemma lookup_update_fields [simp]:
  "lookup mods (ht\<lparr>totalProbes := tp\<rparr>) = lookup mods ht"
  "lookup mods (ht\<lparr>count := c\<rparr>) = lookup mods ht"
  "lookup mods (ht\<lparr>used := u\<rparr>) = lookup mods ht"
  by (simp_all add: lookup_def fun_eq_iff)

lemma table_inv_totalProbes [simp]:
  "table_inv mods (ht\<lparr>totalProbes := tp\<rparr>) = table_inv mods ht"
  by (simp add: table_inv_def)

lemma tombfree_totalProbes [simp]: "tombfree (ht\<lparr>totalProbes := tp\<rparr>) = tombfree ht"
  by (simp add: tombfree_def)

lemma table_inv_chain:
  "table_inv mods ht \<Longrightarrow> chain_ok (probe_sequence mods (prober ht) (hash ht) (mIndex ht)) (table ht)"
  by (simp add: table_inv_def)

lemma card_dom_upd_new:
  "finite (dom m) \<Longrightarrow> m k = None \<Longrightarrow> card (dom (m(k \<mapsto> x))) = Suc (card (dom m))"
  by (simp add: domIff)

lemma card_dom_upd_old:
  "m k = Some y \<Longrightarrow> card (dom (m(k \<mapsto> x))) = card (dom m)"
  by (simp add: insert_absorb domI)

lemma card_dom_del:
  "finite (dom m) \<Longrightarrow> m k = Some y \<Longrightarrow> Suc (card (dom (m(k := None)))) = card (dom m)"
proof -
  assume f: "finite (dom m)" and s: "m k = Some y"
  have "k \<in> dom m" using s by (rule domI)
  with f have "Suc (card (dom m - {k})) = card (dom m)" by (rule card_Suc_Diff1)
  then show ?thesis by simp
qed

lemma insert_fresh_post:
  assumes inv: "table_inv mods ht"
    and l: "locate (probe_sequence mods (prober ht) (hash ht) (mIndex ht) k) (table ht) k = Some l"
      "table ht ! l = None"
  shows "insert_post mods ht (k, v)
           (ht\<lparr>totalProbes := tp,
               table := (table ht)[l := Some \<lparr>item = (k, v), deleted = False\<rparr>],
               count := count ht + 1, used := used ht + 1\<rparr>)"
    (is "insert_post mods ht (k, v) ?ht'")
proof -
  let ?sq = "probe_sequence mods (prober ht) (hash ht) (mIndex ht)"
  note c = table_inv_chain [OF inv]
  note r = table_inv_range [OF inv]
  have ll: "l < length (table ht)" using locate_SomeD [OF l(1)] r by blast
  have lk: "lookup mods ?ht' = (lookup mods ht)(k \<mapsto> (k, v))"
    by (rule ext) (simp add: lookup_def lookup_in_place [OF c r l])
  have none: "lookup mods ht k = None" using l by (simp add: lookup_def lookup_in_def)
  have cnt: "count ?ht' = card (dom (lookup mods ?ht'))"
    unfolding lk using inv card_dom_upd_new [OF finite_dom_lookup [OF inv] none]
    by (simp add: table_inv_def)
  have ch: "chain_ok ?sq (table ?ht')"
    using chain_ok_place [OF c l ll] by simp
  have us: "used ?ht' = length (filter (\<lambda>s. s \<noteq> None) (table ?ht'))"
    using inv nonnull_place [OF ll l(2)] by (simp add: table_inv_def)
  have ti: "table_inv mods ?ht'"
    unfolding table_inv_def using inv cnt ch us by (simp add: table_inv_def)
  have tf: "tombfree ht \<longrightarrow> tombfree ?ht'"
  proof
    assume t: "tombfree ht"
    have "\<not> deleted hj" if "Some hj \<in> set (table ?ht')" for hj
    proof -
      have "Some hj \<in> insert (Some \<lparr>item = (k, v), deleted = False\<rparr>) (set (table ht))"
        using that set_update_subset_insert [of "table ht" l "Some \<lparr>item = (k, v), deleted = False\<rparr>"]
        by auto
      then show ?thesis using t by (auto simp: tombfree_def)
    qed
    then show "tombfree ?ht'" using t by (simp add: tombfree_def)
  qed
  show ?thesis
    unfolding insert_post_def using ti lk tf by (simp add: same_config_def)
qed

lemma insert_over_post:
  assumes inv: "table_inv mods ht"
    and l: "locate (probe_sequence mods (prober ht) (hash ht) (mIndex ht) k) (table ht) k = Some l"
      "table ht ! l = Some hi"
  shows "insert_post mods ht (k, v)
           (ht\<lparr>totalProbes := tp,
               table := (table ht)[l := Some (hi\<lparr>item := (fst (item hi), v)\<rparr>)]\<rparr>)"
    (is "insert_post mods ht (k, v) ?ht'")
proof -
  let ?sq = "probe_sequence mods (prober ht) (hash ht) (mIndex ht)"
  note c = table_inv_chain [OF inv]
  note r = table_inv_range [OF inv]
  have ll: "l < length (table ht)" using locate_SomeD [OF l(1)] r by blast
  have live: "\<not> deleted hi" "fst (item hi) = k"
    using locate_SomeD [OF l(1)] l(2) by (auto simp: probe_stop_Some)
  have lk: "lookup mods ?ht' = (lookup mods ht)(k \<mapsto> (k, v))"
    by (rule ext) (simp add: lookup_def lookup_in_overwrite [OF c r l])
  have some: "lookup mods ht k = Some (item hi)" using l by (simp add: lookup_def lookup_in_def)
  have cnt: "count ?ht' = card (dom (lookup mods ?ht'))"
    unfolding lk using inv card_dom_upd_old [where m = "lookup mods ht" and k = k, OF some] by (simp add: table_inv_def)
  have ch: "chain_ok ?sq (table ?ht')"
    using chain_ok_overwrite [OF c l(2)] by simp
  have us: "used ?ht' = length (filter (\<lambda>s. s \<noteq> None) (table ?ht'))"
    using inv nonnull_replace [OF l(2)] by (simp add: table_inv_def)
  have ti: "table_inv mods ?ht'"
    unfolding table_inv_def using inv cnt ch us by (simp add: table_inv_def)
  have mem: "Some hi \<in> set (table ht)" using ll l(2) by (metis nth_mem)
  have tf: "tombfree ht \<longrightarrow> tombfree ?ht'"
  proof
    assume t: "tombfree ht"
    have "\<not> deleted hj" if "Some hj \<in> set (table ?ht')" for hj
    proof -
      have "Some hj \<in> insert (Some (hi\<lparr>item := (fst (item hi), v)\<rparr>)) (set (table ht))"
        using that set_update_subset_insert [of "table ht" l "Some (hi\<lparr>item := (fst (item hi), v)\<rparr>)"]
        by auto
      then show ?thesis using t mem by (auto simp: tombfree_def)
    qed
    then show "tombfree ?ht'" using t by (simp add: tombfree_def)
  qed
  show ?thesis
    unfolding insert_post_def using ti lk tf by (simp add: same_config_def)
qed

lemma insert_at_probe_post:
  assumes p: "probe_ok mods prb" and inv: "table_inv mods ht"
    and ins: "insert_at_probe prb ht p = (None, ht')"
  shows "insert_post mods ht p ht' \<and> mIndex ht' = mIndex ht \<and> used ht' \<le> used ht + 1"
proof -
  obtain k v where kv: "p = (k, v)" by (cases p)
  from p show ?thesis
  proof (cases rule: insert_at_probe_cases [where ht = ht and k = k and v = v])
    case (full tp)
    then show ?thesis using ins kv by simp
  next
    case (fresh l tp)
    then show ?thesis using ins kv insert_fresh_post [OF inv fresh(1,2), of v tp] by auto
  next
    case (over l hi tp)
    then show ?thesis using ins kv insert_over_post [OF inv over(1,2), of v tp] by auto
  qed
qed

lemma live_items_simps [simp]:
  "live_items [] = []"
  "live_items (None # xs) = live_items xs"
  "live_items (Some hi # xs) = (if deleted hi then live_items xs else item hi # live_items xs)"
  by (simp_all add: live_items_def)

lemma same_config_trans: "same_config a b \<Longrightarrow> same_config b c \<Longrightarrow> same_config a c"
  by (simp add: same_config_def)

lemma same_config_refl [simp]: "same_config a a"
  by (simp add: same_config_def)

lemma rehash_pre_skip:
  "rehash_pre mods (None # xs) s = rehash_pre mods xs s"
  "deleted hi \<Longrightarrow> rehash_pre mods (Some hi # xs) s = rehash_pre mods xs s"
  by (simp_all add: rehash_pre_def)

lemma rehash_pre_step:
  assumes pre: "rehash_pre mods (Some hi # xs) s" and live: "\<not> deleted hi"
    and lk: "lookup mods s1 = (lookup mods s)(fst (item hi) \<mapsto> item hi)"
  shows "rehash_pre mods xs s1"
  unfolding rehash_pre_def
proof (intro ballI allI impI)
  fix kv kv'
  assume kv: "kv \<in> set (live_items xs)"
    and a: "kv' \<in> set (live_items xs) \<or> lookup mods s1 (fst kv') = Some kv'"
    and f: "fst kv' = fst kv"
  have lkp: "lookup mods s1 k = (if k = fst (item hi) then Some (item hi) else lookup mods s k)"
    for k by (simp only: lk fun_upd_apply)
  have kvL: "kv \<in> set (live_items (Some hi # xs))" using kv live by simp
  have "kv' \<in> set (live_items (Some hi # xs)) \<or> lookup mods s (fst kv') = Some kv'"
  proof (cases "kv' \<in> set (live_items xs)")
    case True
    then show ?thesis using live by simp
  next
    case False
    then have l1: "lookup mods s1 (fst kv') = Some kv'" using a by blast
    show ?thesis
    proof (cases "fst kv' = fst (item hi)")
      case True
      then have "kv' = item hi" using l1 lkp [of "fst kv'"] by simp
      then show ?thesis using live by simp
    next
      case False
      then show ?thesis using l1 lkp [of "fst kv'"] by simp
    qed
  qed
  then show "kv' = kv" using pre kvL f unfolding rehash_pre_def by blast
qed

lemma rehash_post:
  assumes ok: "ins_ok mods ins"
  shows "table_inv mods s \<Longrightarrow> tombfree s \<Longrightarrow> rehash_pre mods xs s
    \<Longrightarrow> rehash ins xs s = (None, s')
    \<Longrightarrow> table_inv mods s' \<and> tombfree s' \<and> same_config s s' \<and> mIndex s \<le> mIndex s'
        \<and> (\<forall>k kv. lookup mods s' k = Some kv
              \<longleftrightarrow> lookup mods s k = Some kv \<or> (kv \<in> set (live_items xs) \<and> fst kv = k))"
proof (induction xs arbitrary: s)
  case Nil
  then show ?case by simp
next
  case (Cons x xs)
  show ?case
  proof (cases x)
    case None
    then show ?thesis
      using Cons.IH [OF Cons.prems(1,2)] Cons.prems(3,4) by (simp add: rehash_pre_skip)
  next
    case (Some hi)
    show ?thesis
    proof (cases "deleted hi")
      case True
      then show ?thesis
        using Cons.IH [OF Cons.prems(1,2)] Cons.prems(3,4) Some by (simp add: rehash_pre_skip)
    next
      case False
      let ?p = "item hi"
      obtain e s1 where i: "ins s ?p = (e, s1)" by (cases "ins s ?p")
      have e: "e = None" and r: "rehash ins xs s1 = (None, s')"
        using Cons.prems(4) Some False i by (auto split: option.splits)
      have post: "insert_post mods s ?p s1"
        using ok Cons.prems(1) i e unfolding ins_ok_def by blast
      then have inv1: "table_inv mods s1" and tf1: "tombfree s1"
        and cfg1: "same_config s s1" and mi1: "mIndex s \<le> mIndex s1"
        and lk1: "lookup mods s1 = (lookup mods s)(fst ?p \<mapsto> ?p)"
        using Cons.prems(2) by (simp_all add: insert_post_def)
      have pre1: "rehash_pre mods xs s1"
        using rehash_pre_step [OF _ False lk1] Cons.prems(3) Some by simp
      note IH = Cons.IH [OF inv1 tf1 pre1 r]
      have lkS: "lookup mods s' k = Some kv
              \<longleftrightarrow> lookup mods s k = Some kv \<or> (kv \<in> set (live_items (x # xs)) \<and> fst kv = k)"
        for k kv
      proof -
        have A: "lookup mods s' k = Some kv
           \<longleftrightarrow> lookup mods s1 k = Some kv \<or> (kv \<in> set (live_items xs) \<and> fst kv = k)"
          using IH by blast
        have B: "lookup mods s1 k = Some kv
           \<longleftrightarrow> (if k = fst ?p then kv = ?p else lookup mods s k = Some kv)"
          by (simp only: lk1 fun_upd_apply) auto
        have C: "kv = ?p" if "lookup mods s k = Some kv" "k = fst ?p"
        proof -
          have "fst kv = k" using lookup_key [OF Cons.prems(1) that(1)] .
          moreover have "?p \<in> set (live_items (x # xs))" using Some False by simp
          ultimately show ?thesis
            using Cons.prems(3) that unfolding rehash_pre_def by blast
        qed
        show ?thesis
          unfolding A B using C Some False by auto
      qed
      show ?thesis
        using IH lkS cfg1 mi1 same_config_trans [OF cfg1] by auto
    qed
  qed
qed

lemma empty_table:
  assumes "mIndex s < capCount" "table s = replicate (CAPACITIES ! mIndex s) None"
    "count s = 0" "used s = 0"
  shows "table_inv mods s" and "tombfree s" and "lookup mods s k = None"
proof -
  let ?n = "CAPACITIES ! mIndex s"
  have lk: "lookup mods s k = None" for k
  proof (cases "locate (probe_sequence mods (prober s) (hash s) (mIndex s) k) (table s) k")
    case None
    then show ?thesis by (simp add: lookup_def lookup_in_def)
  next
    case (Some l)
    have "l \<in> set (probe_sequence mods (prober s) (hash s) (mIndex s) k)"
      using locate_SomeD [OF Some] by simp
    then have "l < ?n" by (rule probe_sequence_range)
    then show ?thesis using Some assms(2) by (simp add: lookup_def lookup_in_def)
  qed
  then show "lookup mods s k = None" .
  have "dom (lookup mods s) = {}" using lk by (auto simp: dom_def)
  then have c: "card (dom (lookup mods s)) = 0" by simp
  have ch: "chain_ok sq (table s)" for sq
    using assms(2) by (simp add: chain_ok_def)
  show "table_inv mods s"
    unfolding table_inv_def using assms c ch by simp
  show "tombfree s" using assms by (simp add: tombfree_def)
qed

lemma fresh_table:
  assumes "mIndex ht + 1 < capCount"
  shows "table_inv mods (ht\<lparr>mIndex := mIndex ht + 1,
                            table := replicate (CAPACITIES ! (mIndex ht + 1)) None,
                            count := 0, used := 0\<rparr>)"
    and "tombfree (ht\<lparr>mIndex := mIndex ht + 1,
                       table := replicate (CAPACITIES ! (mIndex ht + 1)) None,
                       count := 0, used := 0\<rparr>)"
    and "lookup mods (ht\<lparr>mIndex := mIndex ht + 1,
                          table := replicate (CAPACITIES ! (mIndex ht + 1)) None,
                          count := 0, used := 0\<rparr>) k = None"
  using assms by - (rule empty_table; simp)+

lemma HashTable_init_inv:
  "table_inv mods (HashTable_init alpha pk h)" "tombfree (HashTable_init alpha pk h)"
  "lookup mods (HashTable_init alpha pk h) k = None"
  by (rule empty_table; simp add: HashTable_init_def capCount_28)+

lemma rehash_pre_initial:
  assumes inv: "table_inv mods ht" and e: "\<And>k. lookup mods s k = None"
  shows "rehash_pre mods (table ht) s"
  unfolding rehash_pre_def
proof (intro ballI allI impI)
  fix kv kv'
  assume kv: "kv \<in> set (live_items (table ht))"
    and a: "kv' \<in> set (live_items (table ht)) \<or> lookup mods s (fst kv') = Some kv'"
    and f: "fst kv' = fst kv"
  have "kv' \<in> set (live_items (table ht))" using a e by simp
  then have "lookup mods ht (fst kv) = Some kv'" using lookup_live_items [OF inv] f by blast
  moreover have "lookup mods ht (fst kv) = Some kv" using lookup_live_items [OF inv] kv by blast
  ultimately show "kv' = kv" by simp
qed

lemma resize_post:
  assumes ok: "ins_ok mods ins" and inv: "table_inv mods ht" and r: "resize ins ht = (None, ht')"
  shows "table_inv mods ht' \<and> tombfree ht' \<and> same_config ht ht' \<and> mIndex ht < mIndex ht'
         \<and> lookup mods ht' = lookup mods ht"
proof -
  let ?s = "ht\<lparr>mIndex := mIndex ht + 1,
                table := replicate (CAPACITIES ! (mIndex ht + 1)) None,
                count := 0, used := 0\<rparr>"
  have lt: "mIndex ht + 1 < capCount" and rh: "rehash ins (table ht) ?s = (None, ht')"
    using r by (auto simp: resize_def split: if_splits)
  note f = fresh_table(1) [OF lt, where mods = mods] fresh_table(2) [OF lt]
    fresh_table(3) [OF lt, where mods = mods]
  have pre: "rehash_pre mods (table ht) ?s"
    by (rule rehash_pre_initial [OF inv]) (rule f(3))
  note p = rehash_post [OF ok f(1) f(2) pre rh]
  have "lookup mods ht' k = lookup mods ht k" for k
  proof (rule option_eq_by_Some)
    fix kv
    have "lookup mods ht' k = Some kv
          \<longleftrightarrow> lookup mods ?s k = Some kv \<or> (kv \<in> set (live_items (table ht)) \<and> fst kv = k)"
      using p by blast
    then show "lookup mods ht' k = Some kv \<longleftrightarrow> lookup mods ht k = Some kv"
      using f(3) [of k] lookup_live_items [OF inv, of k kv] by simp
  qed
  then have "lookup mods ht' = lookup mods ht" by (rule ext)
  moreover have "same_config ht ht'" "mIndex ht < mIndex ht'"
    using p by (simp_all add: same_config_def)
  ultimately show ?thesis using p by blast
qed

lemma insert_with_cases:
  assumes "insert_with grow_test prb ins ht p = (None, ht')"
  shows "(\<not> grow_test ht \<and> insert_at_probe prb ht p = (None, ht'))
       \<or> (grow_test ht \<and> (\<exists>ht1. resize ins ht = (None, ht1) \<and> insert_at_probe prb ht1 p = (None, ht')))"
  using assms by (auto simp: insert_with_def split: if_splits prod.splits option.splits)

lemma insert_post_compose:
  assumes a: "table_inv mods ht1" "tombfree ht1" "same_config ht ht1" "mIndex ht < mIndex ht1"
      "lookup mods ht1 = lookup mods ht"
    and b: "insert_post mods ht1 p ht'"
  shows "insert_post mods ht p ht'"
  using a b same_config_trans [OF a(3)] by (simp add: insert_post_def)

lemma ins_ok_insert_with:
  assumes p: "probe_ok mods prb" and ok: "ins_ok mods ins"
  shows "ins_ok mods (insert_with grow_test prb ins)"
  unfolding ins_ok_def
proof (intro allI impI)
  fix ht p ht'
  assume inv: "table_inv mods ht" and i: "insert_with grow_test prb ins ht p = (None, ht')"
  from insert_with_cases [OF i] show "insert_post mods ht p ht'"
  proof
    assume "\<not> grow_test ht \<and> insert_at_probe prb ht p = (None, ht')"
    then show ?thesis using insert_at_probe_post [OF p inv] by blast
  next
    assume "grow_test ht \<and> (\<exists>ht1. resize ins ht = (None, ht1) \<and> insert_at_probe prb ht1 p = (None, ht'))"
    then obtain ht1 where r: "resize ins ht = (None, ht1)"
      and a: "insert_at_probe prb ht1 p = (None, ht')" by blast
    note rp = resize_post [OF ok inv r]
    have "insert_post mods ht1 p ht'" using insert_at_probe_post [OF p _ a] rp by blast
    then show ?thesis using insert_post_compose rp by blast
  qed
qed

lemma ins_ok_insert_fuel_with:
  assumes "probe_ok mods prb"
  shows "ins_ok mods (insert_fuel_with grow_test prb n)"
proof (induction n)
  case 0
  have "ins_ok mods (\<lambda>ht p. (Some OutOfFuel, ht))" by (simp add: ins_ok_def)
  then show ?case using ins_ok_insert_with [OF assms] by simp
next
  case (Suc n)
  then show ?case using ins_ok_insert_with [OF assms] by simp
qed

lemma table_invI:
  "mIndex ht < capCount \<Longrightarrow> length (table ht) = CAPACITIES ! mIndex ht
   \<Longrightarrow> chain_ok (probe_sequence mods (prober ht) (hash ht) (mIndex ht)) (table ht)
   \<Longrightarrow> count ht = card (dom (lookup mods ht)) \<Longrightarrow> count ht \<le> used ht
   \<Longrightarrow> used ht = length (filter (\<lambda>s. s \<noteq> None) (table ht))
   \<Longrightarrow> table_inv mods ht"
  by (simp add: table_inv_def)

lemma tombstone_post:
  assumes inv: "table_inv mods ht"
    and l: "locate (probe_sequence mods (prober ht) (hash ht) (mIndex ht) k) (table ht) k = Some l"
      "table ht ! l = Some hi"
  shows "table_inv mods (ht\<lparr>totalProbes := tp,
                            table := (table ht)[l := Some (hi\<lparr>deleted := True\<rparr>)],
                            count := count ht - 1\<rparr>)" (is "table_inv mods ?ht'")
    and "lookup mods (ht\<lparr>totalProbes := tp,
                          table := (table ht)[l := Some (hi\<lparr>deleted := True\<rparr>)],
                          count := count ht - 1\<rparr>) = (lookup mods ht)(k := None)"
    and "Suc (count ht - 1) = count ht"
proof -
  let ?sq = "probe_sequence mods (prober ht) (hash ht) (mIndex ht)"
  note c = table_inv_chain [OF inv]
  note r = table_inv_range [OF inv]
  have ll: "l < length (table ht)" using locate_SomeD [OF l(1)] r by blast
  show lk: "lookup mods ?ht' = (lookup mods ht)(k := None)"
    by (rule ext) (simp add: lookup_def lookup_in_tombstone [OF c r l])
  have some: "lookup mods ht k = Some (item hi)" using l by (simp add: lookup_def lookup_in_def)
  have cd: "Suc (card (dom ((lookup mods ht)(k := None)))) = card (dom (lookup mods ht))"
    using card_dom_del [OF finite_dom_lookup [OF inv] some] .
  have ceq: "count ht = card (dom (lookup mods ht))" using inv by (simp add: table_inv_def)
  show "Suc (count ht - 1) = count ht" using cd ceq by simp
  have cnt: "count ?ht' = card (dom (lookup mods ?ht'))"
    unfolding lk using cd ceq by simp
  have ch: "chain_ok ?sq (table ?ht')"
    using chain_ok_tombstone [OF c l(2) ll] by simp
  have us: "used ?ht' = length (filter (\<lambda>s. s \<noteq> None) (table ?ht'))"
    using inv nonnull_replace [OF l(2)] by (simp add: table_inv_def)
  have "count ht \<le> used ht" using inv unfolding table_inv_def by blast
  then have le: "count ?ht' \<le> used ?ht'" by simp
  have mi: "mIndex ?ht' < capCount" "length (table ?ht') = CAPACITIES ! mIndex ?ht'"
    using inv by (simp_all add: table_inv_def)
  show "table_inv mods ?ht'"
    using mi(1,2) _ cnt le us by (rule table_invI) (use ch in simp)
qed

lemma internalFind_cases:
  obtains
    (absent) tp where "lookup DOUBLE_HASH_MOD_VALUES ht k = None"
      "internalFind ht k = (None, ht\<lparr>totalProbes := tp\<rparr>)"
  | (present) l hi tp where
      "locate (probe_sequence DOUBLE_HASH_MOD_VALUES (prober ht) (hash ht) (mIndex ht) k)
         (table ht) k = Some l"
      "table ht ! l = Some hi"
      "internalFind ht k = (Some (l, hi), ht\<lparr>totalProbes := tp\<rparr>)"
proof -
  obtain tp where p: "probe ht k
      = (locate (probe_sequence DOUBLE_HASH_MOD_VALUES (prober ht) (hash ht) (mIndex ht) k)
           (table ht) k, ht\<lparr>totalProbes := tp\<rparr>)"
    by (rule probe_okD [OF probe_ok_probe])
  show thesis
  proof (cases "locate (probe_sequence DOUBLE_HASH_MOD_VALUES (prober ht) (hash ht) (mIndex ht) k)
                  (table ht) k")
    case None
    then show ?thesis using p
      by (intro absent [of tp]) (simp_all add: internalFind_def lookup_def lookup_in_def)
  next
    case (Some l)
    show ?thesis
    proof (cases "table ht ! l")
      case None
      then show ?thesis using p Some
        by (intro absent [of tp]) (simp_all add: internalFind_def lookup_def lookup_in_def)
    next
      case (Some hi)
      then show ?thesis using p \<open>locate _ _ _ = Some l\<close>
        by (intro present [of l hi tp]) (simp_all add: internalFind_def)
    qed
  qed
qed

lemma internalFind_p0_cases:
  obtains
    (absent) tp where "lookup modVals ht k = None"
      "internalFind_p0 ht k = (None, ht\<lparr>totalProbes := tp\<rparr>)"
  | (present) l hi tp where
      "locate (probe_sequence modVals (prober ht) (hash ht) (mIndex ht) k) (table ht) k = Some l"
      "table ht ! l = Some hi" "\<not> deleted hi"
      "internalFind_p0 ht k = (Some (l, hi), ht\<lparr>totalProbes := tp\<rparr>)"
proof -
  obtain tp where p: "probe_p0 ht k
      = (locate (probe_sequence modVals (prober ht) (hash ht) (mIndex ht) k)
           (table ht) k, ht\<lparr>totalProbes := tp\<rparr>)"
    by (rule probe_okD [OF probe_ok_probe_p0])
  show thesis
  proof (cases "locate (probe_sequence modVals (prober ht) (hash ht) (mIndex ht) k) (table ht) k")
    case None
    then show ?thesis using p
      by (intro absent [of tp]) (simp_all add: internalFind_p0_def lookup_def lookup_in_def)
  next
    case (Some l)
    show ?thesis
    proof (cases "table ht ! l")
      case None
      then show ?thesis using p Some
        by (intro absent [of tp]) (simp_all add: internalFind_p0_def lookup_def lookup_in_def)
    next
      case (Some hi)
      have "\<not> deleted hi"
        using locate_SomeD [OF \<open>locate _ _ _ = Some l\<close>] Some by (simp add: probe_stop_Some)
      then show ?thesis using p \<open>locate _ _ _ = Some l\<close> Some
        by (intro present [of l hi tp]) (simp_all add: internalFind_p0_def)
    qed
  qed
qed

lemma lookup_located:
  "locate (probe_sequence mods (prober ht) (hash ht) (mIndex ht) k) (table ht) k = Some l
   \<Longrightarrow> table ht ! l = Some hi \<Longrightarrow> lookup mods ht k = Some (item hi)"
  by (simp add: lookup_def lookup_in_def)

lemma find_ht_lookup:
  "fst (find_ht ht k) = lookup DOUBLE_HASH_MOD_VALUES ht k"
  "\<exists>tp. snd (find_ht ht k) = ht\<lparr>totalProbes := tp\<rparr>"
proof -
  obtain tp where p: "probe ht k
      = (locate (probe_sequence DOUBLE_HASH_MOD_VALUES (prober ht) (hash ht) (mIndex ht) k)
           (table ht) k, ht\<lparr>totalProbes := tp\<rparr>)"
    by (rule probe_okD [OF probe_ok_probe])
  show "fst (find_ht ht k) = lookup DOUBLE_HASH_MOD_VALUES ht k"
    using p by (simp add: find_ht_def lookup_def lookup_in_def split: option.splits)
  have "snd (find_ht ht k) = ht\<lparr>totalProbes := tp\<rparr>"
    using p by (simp add: find_ht_def split: option.splits)
  then show "\<exists>tp. snd (find_ht ht k) = ht\<lparr>totalProbes := tp\<rparr>" ..
qed

lemma find_p0_lookup:
  "fst (find_p0 ht k) = lookup modVals ht k"
  "\<exists>tp. snd (find_p0 ht k) = ht\<lparr>totalProbes := tp\<rparr>"
proof -
  show "fst (find_p0 ht k) = lookup modVals ht k"
    by (cases rule: internalFind_p0_cases [of ht k])
       (simp_all add: find_p0_def lookup_located)
  show "\<exists>tp. snd (find_p0 ht k) = ht\<lparr>totalProbes := tp\<rparr>"
    by (cases rule: internalFind_p0_cases [of ht k]) (auto simp: find_p0_def)
qed

lemma at_ht_lookup:
  "fst (at_ht ht k)
     = (case lookup DOUBLE_HASH_MOD_VALUES ht k of None \<Rightarrow> Inl KeyNotFound | Some kv \<Rightarrow> Inr (snd kv))"
  "\<exists>tp. snd (at_ht ht k) = ht\<lparr>totalProbes := tp\<rparr>"
proof -
  show "fst (at_ht ht k)
     = (case lookup DOUBLE_HASH_MOD_VALUES ht k of None \<Rightarrow> Inl KeyNotFound | Some kv \<Rightarrow> Inr (snd kv))"
    by (cases rule: internalFind_cases [of ht k]) (simp_all add: at_ht_def lookup_located)
  show "\<exists>tp. snd (at_ht ht k) = ht\<lparr>totalProbes := tp\<rparr>"
    by (cases rule: internalFind_cases [of ht k]) (auto simp: at_ht_def)
qed

lemma at_p0_lookup:
  "fst (at_p0 ht k)
     = (case lookup modVals ht k of None \<Rightarrow> Inl KeyNotFound | Some kv \<Rightarrow> Inr (snd kv))"
  "\<exists>tp. snd (at_p0 ht k) = ht\<lparr>totalProbes := tp\<rparr>"
proof -
  show "fst (at_p0 ht k)
     = (case lookup modVals ht k of None \<Rightarrow> Inl KeyNotFound | Some kv \<Rightarrow> Inr (snd kv))"
    by (cases rule: internalFind_p0_cases [of ht k]) (simp_all add: at_p0_def lookup_located)
  show "\<exists>tp. snd (at_p0 ht k) = ht\<lparr>totalProbes := tp\<rparr>"
    by (cases rule: internalFind_p0_cases [of ht k]) (auto simp: at_p0_def)
qed

lemma remove_ht_cases:
  obtains
    (absent) tp where "lookup DOUBLE_HASH_MOD_VALUES ht k = None"
      "remove_ht ht k = ht\<lparr>totalProbes := tp\<rparr>"
  | (present) l hi tp where
      "locate (probe_sequence DOUBLE_HASH_MOD_VALUES (prober ht) (hash ht) (mIndex ht) k)
         (table ht) k = Some l"
      "table ht ! l = Some hi"
      "remove_ht ht k = ht\<lparr>totalProbes := tp,
                            table := (table ht)[l := Some (hi\<lparr>deleted := True\<rparr>)],
                            count := count ht - 1\<rparr>"
proof (cases rule: internalFind_cases [of ht k])
  case (absent tp)
  then show ?thesis by (intro that(1) [of tp]) (simp_all add: remove_ht_def)
next
  case (present l hi tp)
  then show ?thesis by (intro that(2) [of l hi tp]) (simp_all add: remove_ht_def)
qed

lemma remove_p0_cases:
  obtains
    (absent) tp where "lookup modVals ht k = None"
      "remove_p0 ht k = ht\<lparr>totalProbes := tp\<rparr>"
  | (present) l hi tp where
      "locate (probe_sequence modVals (prober ht) (hash ht) (mIndex ht) k) (table ht) k = Some l"
      "table ht ! l = Some hi"
      "remove_p0 ht k = ht\<lparr>totalProbes := tp,
                            table := (table ht)[l := Some (hi\<lparr>deleted := True\<rparr>)],
                            count := count ht - 1\<rparr>"
proof (cases rule: internalFind_p0_cases [of ht k])
  case (absent tp)
  then show ?thesis by (intro that(1) [of tp]) (simp_all add: remove_p0_def)
next
  case (present l hi tp)
  then show ?thesis by (intro that(2) [of l hi tp]) (simp_all add: remove_p0_def)
qed

lemma rehash_error:
  assumes "\<And>ht p e ht'. ins ht p = (Some e, ht') \<Longrightarrow> P e"
  shows "rehash ins xs s = (Some e, s') \<Longrightarrow> P e"
proof (induction xs arbitrary: s)
  case Nil
  then show ?case by simp
next
  case (Cons x xs)
  show ?case
  proof (cases x)
    case None
    then show ?thesis using Cons by simp
  next
    case (Some hi)
    show ?thesis
    proof (cases "deleted hi")
      case True
      then show ?thesis using Cons Some by simp
    next
      case False
      obtain r s1 where i: "ins s (item hi) = (r, s1)" by (cases "ins s (item hi)")
      show ?thesis
      proof (cases r)
        case None
        then show ?thesis using Cons Some False i by simp
      next
        case (Some e')
        then have "e' = e" using Cons.prems \<open>x = Some hi\<close> False i by simp
        then show ?thesis using assms i Some by blast
      qed
    qed
  qed
qed

lemma insert_at_probe_error:
  assumes "probe_ok mods prb" "insert_at_probe prb ht p = (Some e, ht')"
  shows "e = TableFull"
proof -
  obtain k v where kv: "p = (k, v)" by (cases p)
  from assms(1) show ?thesis
    by (cases rule: insert_at_probe_cases [where ht = ht and k = k and v = v])
       (use assms(2) kv in auto)
qed

lemma insert_with_error:
  assumes p: "probe_ok mods prb"
    and ins: "\<And>ht p e ht'. ins ht p = (Some e, ht') \<Longrightarrow> e \<in> {TableFull, CapacityExhausted, OutOfFuel}"
    and i: "insert_with grow_test prb ins ht q = (Some e, ht')"
  shows "e \<in> {TableFull, CapacityExhausted, OutOfFuel}"
proof (cases "grow_test ht")
  case False
  then show ?thesis using i insert_at_probe_error [OF p] by (simp add: insert_with_def)
next
  case True
  obtain r ht1 where rs: "resize ins ht = (r, ht1)" by (cases "resize ins ht")
  show ?thesis
  proof (cases r)
    case None
    then show ?thesis using i True rs insert_at_probe_error [OF p] by (simp add: insert_with_def)
  next
    case (Some e')
    then have ee: "e' = e" using i True rs by (simp add: insert_with_def)
    show ?thesis
    proof (cases "capCount \<le> mIndex ht + 1")
      case True
      then show ?thesis using rs Some ee by (simp add: resize_def)
    next
      case False
      then have "rehash ins (table ht)
                   (ht\<lparr>mIndex := mIndex ht + 1,
                       table := replicate (CAPACITIES ! (mIndex ht + 1)) None,
                       count := 0, used := 0\<rparr>) = (Some e, ht1)"
        using rs Some ee by (simp add: resize_def)
      then show ?thesis
        by (rule rehash_error [where P = "\<lambda>e. e \<in> {TableFull, CapacityExhausted, OutOfFuel}"
              and ins = ins, rotated]) (rule ins)
    qed
  qed
qed

lemma insert_fuel_with_error:
  assumes p: "probe_ok mods prb"
  shows "insert_fuel_with grow_test prb n ht q = (Some e, ht')
         \<Longrightarrow> e \<in> {TableFull, CapacityExhausted, OutOfFuel}"
proof (induction n arbitrary: ht q e ht')
  case 0
  show ?case
    by (rule insert_with_error [OF p _ 0 [simplified]]) simp
next
  case (Suc n)
  show ?case
    by (rule insert_with_error [OF p _ Suc.prems [simplified]]) (rule Suc.IH)
qed

lemma rehash_mIndex:
  assumes mono: "\<And>ht p ht'. ins ht p = (None, ht') \<Longrightarrow> mIndex ht \<le> mIndex ht'"
  shows "rehash ins xs s = (None, s') \<Longrightarrow> mIndex s \<le> mIndex s'"
proof (induction xs arbitrary: s)
  case Nil
  then show ?case by simp
next
  case (Cons x xs)
  show ?case
  proof (cases x)
    case None
    then show ?thesis using Cons by simp
  next
    case (Some hi)
    show ?thesis
    proof (cases "deleted hi")
      case True
      then show ?thesis using Cons Some by simp
    next
      case False
      obtain r s1 where i: "ins s (item hi) = (r, s1)" by (cases "ins s (item hi)")
      then have r: "r = None" and rh: "rehash ins xs s1 = (None, s')"
        using Cons.prems Some False by (auto split: option.splits)
      have "mIndex s \<le> mIndex s1" using mono i r by blast
      then show ?thesis using Cons.IH [OF rh] by simp
    qed
  qed
qed

lemma insert_at_probe_mIndex:
  assumes "probe_ok mods prb" "insert_at_probe prb ht p = (r, ht')"
  shows "mIndex ht' = mIndex ht"
proof -
  obtain k v where kv: "p = (k, v)" by (cases p)
  from assms(1) show ?thesis
    by (cases rule: insert_at_probe_cases [where ht = ht and k = k and v = v])
       (use assms(2) kv in auto)
qed

lemma insert_with_mIndex:
  assumes p: "probe_ok mods prb"
    and mono: "\<And>ht p ht'. ins ht p = (None, ht') \<Longrightarrow> mIndex ht \<le> mIndex ht'"
    and i: "insert_with grow_test prb ins ht q = (None, ht')"
  shows "mIndex ht \<le> mIndex ht'"
  using insert_with_cases [OF i]
proof
  assume "\<not> grow_test ht \<and> insert_at_probe prb ht q = (None, ht')"
  then show ?thesis using insert_at_probe_mIndex [OF p] by fastforce
next
  assume "grow_test ht \<and> (\<exists>ht1. resize ins ht = (None, ht1) \<and> insert_at_probe prb ht1 q = (None, ht'))"
  then obtain ht1 where r: "resize ins ht = (None, ht1)"
    and a: "insert_at_probe prb ht1 q = (None, ht')" by blast
  have "rehash ins (table ht)
          (ht\<lparr>mIndex := mIndex ht + 1,
              table := replicate (CAPACITIES ! (mIndex ht + 1)) None,
              count := 0, used := 0\<rparr>) = (None, ht1)"
    using r by (simp add: resize_def split: if_splits)
  then have "mIndex (ht\<lparr>mIndex := mIndex ht + 1,
              table := replicate (CAPACITIES ! (mIndex ht + 1)) None,
              count := 0, used := 0\<rparr>) \<le> mIndex ht1"
    by (rule rehash_mIndex [where ins = ins, rotated]) (rule mono)
  then have "mIndex ht \<le> mIndex ht1" by simp
  then show ?thesis using insert_at_probe_mIndex [OF p a] by simp
qed

lemma insert_fuel_with_mIndex:
  assumes p: "probe_ok mods prb"
  shows "insert_fuel_with grow_test prb n ht q = (None, ht') \<Longrightarrow> mIndex ht \<le> mIndex ht'"
proof (induction n arbitrary: ht q ht')
  case 0
  show ?case by (rule insert_with_mIndex [OF p _ 0 [simplified]]) simp
next
  case (Suc n)
  show ?case by (rule insert_with_mIndex [OF p _ Suc.prems [simplified]]) (rule Suc.IH)
qed

lemma rehash_no_OutOfFuel:
  assumes mono: "\<And>ht p ht'. ins ht p = (None, ht') \<Longrightarrow> mIndex ht \<le> mIndex ht'"
    and nf: "\<And>ht p. b \<le> mIndex ht \<Longrightarrow> fst (ins ht p) \<noteq> Some OutOfFuel"
  shows "b \<le> mIndex s \<Longrightarrow> fst (rehash ins xs s) \<noteq> Some OutOfFuel"
proof (induction xs arbitrary: s)
  case Nil
  then show ?case by simp
next
  case (Cons x xs)
  show ?case
  proof (cases x)
    case None
    then show ?thesis using Cons by simp
  next
    case (Some hi)
    show ?thesis
    proof (cases "deleted hi")
      case True
      then show ?thesis using Cons Some by simp
    next
      case False
      obtain r s1 where i: "ins s (item hi) = (r, s1)" by (cases "ins s (item hi)")
      show ?thesis
      proof (cases r)
        case None
        then have "mIndex s \<le> mIndex s1" using mono i by blast
        then have "fst (rehash ins xs s1) \<noteq> Some OutOfFuel" using Cons by simp
        then show ?thesis using \<open>x = Some hi\<close> False i None by simp
      next
        case (Some e)
        then have "e \<noteq> OutOfFuel" using nf [OF Cons.prems, of "item hi"] i by auto
        then show ?thesis using \<open>x = Some hi\<close> False i Some by simp
      qed
    qed
  qed
qed

lemma insert_at_probe_no_OutOfFuel:
  assumes "probe_ok mods prb"
  shows "fst (insert_at_probe prb ht p) \<noteq> Some OutOfFuel"
proof -
  obtain r ht' where i: "insert_at_probe prb ht p = (r, ht')"
    by (cases "insert_at_probe prb ht p")
  show ?thesis
  proof (cases r)
    case None
    then show ?thesis using i by simp
  next
    case (Some e)
    then show ?thesis using insert_at_probe_error [OF assms, of ht p e ht'] i by simp
  qed
qed

lemma insert_fuel_with_enough:
  assumes p: "probe_ok mods prb"
  shows "capCount \<le> mIndex ht + n + 1
         \<Longrightarrow> fst (insert_fuel_with grow_test prb n ht q) \<noteq> Some OutOfFuel"
proof (induction n arbitrary: ht q)
  case 0
  then show ?case
    using insert_at_probe_no_OutOfFuel [OF p]
    by (simp add: insert_with_def resize_def split: prod.splits option.splits)
next
  case (Suc n)
  let ?ins = "insert_fuel_with grow_test prb n"
  let ?s = "ht\<lparr>mIndex := mIndex ht + 1,
                table := replicate (CAPACITIES ! (mIndex ht + 1)) None,
                count := 0, used := 0\<rparr>"
  show ?case
  proof (cases "grow_test ht \<and> \<not> capCount \<le> mIndex ht + 1")
    case False
    then show ?thesis
      using insert_at_probe_no_OutOfFuel [OF p]
      by (auto simp: insert_with_def resize_def split: prod.splits option.splits)
  next
    case True
    have nf: "fst (?ins h p') \<noteq> Some OutOfFuel" if "capCount - (n + 1) \<le> mIndex h" for h p'
      using Suc.IH [of h p'] that by simp
    have "capCount - (n + 1) \<le> mIndex ?s" using Suc.prems by simp
    then have "fst (rehash ?ins (table ht) ?s) \<noteq> Some OutOfFuel"
    proof (rule rehash_no_OutOfFuel [where ins = "?ins" and b = "capCount - (n + 1)", rotated 2])
      show "\<And>ht p ht'. ?ins ht p = (None, ht') \<Longrightarrow> mIndex ht \<le> mIndex ht'"
        by (rule insert_fuel_with_mIndex [OF p])
      show "\<And>ht p. capCount - (n + 1) \<le> mIndex ht \<Longrightarrow> fst (?ins ht p) \<noteq> Some OutOfFuel"
        by (rule nf)
    qed
    then show ?thesis
      using True insert_at_probe_no_OutOfFuel [OF p]
      by (auto simp: insert_with_def resize_def split: prod.splits option.splits)
  qed
qed

lemma insert_ht_ok: "ins_ok DOUBLE_HASH_MOD_VALUES insert_ht"
  unfolding insert_ht_def insert_fuel_def
  by (rule ins_ok_insert_fuel_with [OF probe_ok_probe])

lemma insert_p0_ok: "ins_ok modVals insert_p0"
  unfolding insert_p0_def insert_fuel_p0_def
  by (rule ins_ok_insert_fuel_with [OF probe_ok_probe_p0])

lemma insert_ht_error:
  "insert_ht ht p = (Some e, ht') \<Longrightarrow> e \<in> {TableFull, CapacityExhausted}"
proof -
  assume a: "insert_ht ht p = (Some e, ht')"
  have "e \<in> {TableFull, CapacityExhausted, OutOfFuel}"
    using a insert_fuel_with_error [OF probe_ok_probe]
    unfolding insert_ht_def insert_fuel_def by blast
  moreover have "fst (insert_ht ht p) \<noteq> Some OutOfFuel"
    unfolding insert_ht_def insert_fuel_def
    by (rule insert_fuel_with_enough [OF probe_ok_probe]) simp
  ultimately show ?thesis using a by auto
qed

lemma insert_p0_error:
  "insert_p0 ht p = (Some e, ht') \<Longrightarrow> e \<in> {TableFull, CapacityExhausted}"
proof -
  assume a: "insert_p0 ht p = (Some e, ht')"
  have "e \<in> {TableFull, CapacityExhausted, OutOfFuel}"
    using a insert_fuel_with_error [OF probe_ok_probe_p0]
    unfolding insert_p0_def insert_fuel_p0_def by blast
  moreover have "fst (insert_p0 ht p) \<noteq> Some OutOfFuel"
    unfolding insert_p0_def insert_fuel_p0_def
    by (rule insert_fuel_with_enough [OF probe_ok_probe_p0])
       (simp add: sizes_eq capCount_def)
  ultimately show ?thesis using a by auto
qed

lemma count_card: "table_inv mods ht \<Longrightarrow> count ht = card (dom (lookup mods ht))"
  by (simp add: table_inv_def)

lemma refines_insert:
  assumes ok: "ins_ok mods ins"
    and err: "\<And>ht p e ht'. ins ht p = (Some e, ht') \<Longrightarrow> e \<in> {TableFull, CapacityExhausted}"
    and inv: "table_inv mods ht"
    and st: "(case ins ht (k, v) of (None, ht') \<Rightarrow> (Done, ht') | (Some e, ht') \<Rightarrow> (Raised e, ht'))
             = (r, ht')"
    and nf: "\<not> fatal r"
  shows "table_inv mods ht' \<and> same_config ht ht' \<and> mIndex ht \<le> mIndex ht'
         \<and> lookup mods ht' = abs_step (lookup mods ht) (Insert k v)
         \<and> r = abs_outcome (lookup mods ht) (Insert k v)"
proof -
  obtain e s where i: "ins ht (k, v) = (e, s)" by (cases "ins ht (k, v)")
  show ?thesis
  proof (cases e)
    case None
    then have "insert_post mods ht (k, v) ht'" "r = Done"
      using ok inv i st unfolding ins_ok_def by auto
    then show ?thesis by (simp add: insert_post_def)
  next
    case (Some x)
    then have "x \<in> {TableFull, CapacityExhausted}" using err i by blast
    then have "fatal r" using st i Some by auto
    then show ?thesis using nf by simp
  qed
qed

lemma refines_remove:
  assumes inv: "table_inv mods ht"
    and c: "lookup mods ht k = None \<and> (\<exists>tp. ht' = ht\<lparr>totalProbes := tp\<rparr>)
       \<or> (\<exists>l hi tp. locate (probe_sequence mods (prober ht) (hash ht) (mIndex ht) k) (table ht) k = Some l
             \<and> table ht ! l = Some hi
             \<and> ht' = ht\<lparr>totalProbes := tp,
                         table := (table ht)[l := Some (hi\<lparr>deleted := True\<rparr>)],
                         count := count ht - 1\<rparr>)"
  shows "table_inv mods ht' \<and> same_config ht ht' \<and> mIndex ht \<le> mIndex ht'
         \<and> lookup mods ht' = abs_step (lookup mods ht) (Remove k)"
  using c
proof
  assume "lookup mods ht k = None \<and> (\<exists>tp. ht' = ht\<lparr>totalProbes := tp\<rparr>)"
  then obtain tp where n: "lookup mods ht k = None" and h: "ht' = ht\<lparr>totalProbes := tp\<rparr>" by blast
  have "(lookup mods ht)(k := None) = lookup mods ht" using n by (simp add: fun_upd_idem_iff)
  then show ?thesis using inv h by (simp add: same_config_def)
next
  assume "\<exists>l hi tp. locate (probe_sequence mods (prober ht) (hash ht) (mIndex ht) k) (table ht) k = Some l
             \<and> table ht ! l = Some hi
             \<and> ht' = ht\<lparr>totalProbes := tp,
                         table := (table ht)[l := Some (hi\<lparr>deleted := True\<rparr>)],
                         count := count ht - 1\<rparr>"
  then obtain l hi tp where
    l: "locate (probe_sequence mods (prober ht) (hash ht) (mIndex ht) k) (table ht) k = Some l"
      "table ht ! l = Some hi"
    and h: "ht' = ht\<lparr>totalProbes := tp,
                     table := (table ht)[l := Some (hi\<lparr>deleted := True\<rparr>)],
                     count := count ht - 1\<rparr>" by blast
  note t = tombstone_post(1) [OF inv l, where tp = tp] tombstone_post(2) [OF inv l, where tp = tp]
  show ?thesis unfolding h using t(1,2) by (simp add: same_config_def)
qed

lemma find_ht_eq:
  obtains tp where "find_ht ht k = (lookup DOUBLE_HASH_MOD_VALUES ht k, ht\<lparr>totalProbes := tp\<rparr>)"
  using find_ht_lookup [of ht k] by (metis prod.collapse)

lemma find_p0_eq:
  obtains tp where "find_p0 ht k = (lookup modVals ht k, ht\<lparr>totalProbes := tp\<rparr>)"
  using find_p0_lookup [of ht k] by (metis prod.collapse)

lemma at_ht_eq:
  obtains tp where
    "at_ht ht k = ((case lookup DOUBLE_HASH_MOD_VALUES ht k of None \<Rightarrow> Inl KeyNotFound
                    | Some kv \<Rightarrow> Inr (snd kv)), ht\<lparr>totalProbes := tp\<rparr>)"
  using at_ht_lookup [of ht k] by (metis prod.collapse)

lemma at_p0_eq:
  obtains tp where
    "at_p0 ht k = ((case lookup modVals ht k of None \<Rightarrow> Inl KeyNotFound
                    | Some kv \<Rightarrow> Inr (snd kv)), ht\<lparr>totalProbes := tp\<rparr>)"
  using at_p0_lookup [of ht k] by (metis prod.collapse)

lemma refines_step: "refines DOUBLE_HASH_MOD_VALUES step"
  unfolding refines_def
proof (intro allI impI)
  fix ht :: "('a, 'b) HashTable" and x r ht'
  let ?M = DOUBLE_HASH_MOD_VALUES
  assume inv: "table_inv ?M ht" and st: "step ht x = (r, ht')" and nf: "\<not> fatal r"
  show "table_inv ?M ht' \<and> same_config ht ht' \<and> mIndex ht \<le> mIndex ht'
        \<and> lookup ?M ht' = abs_step (lookup ?M ht) x \<and> r = abs_outcome (lookup ?M ht) x"
  proof (cases x)
    case (Insert k v)
    show ?thesis unfolding Insert
      by (rule refines_insert [OF insert_ht_ok insert_ht_error inv _ nf])
         (use st Insert in simp_all)
  next
    case (Remove k)
    have r: "r = Done" and h: "ht' = remove_ht ht k" using st Remove by auto
    have "table_inv ?M ht' \<and> same_config ht ht' \<and> mIndex ht \<le> mIndex ht'
         \<and> lookup ?M ht' = abs_step (lookup ?M ht) (Remove k)"
      by (rule refines_remove [OF inv], cases rule: remove_ht_cases [of ht k])
         (use h in auto)
    then show ?thesis using r Remove by simp
  next
    case (Find k)
    obtain tp where "find_ht ht k = (lookup ?M ht k, ht\<lparr>totalProbes := tp\<rparr>)"
      by (rule find_ht_eq)
    then show ?thesis using st Find inv by (auto simp: same_config_def)
  next
    case (At k)
    obtain tp where "at_ht ht k = ((case lookup ?M ht k of None \<Rightarrow> Inl KeyNotFound
                    | Some kv \<Rightarrow> Inr (snd kv)), ht\<lparr>totalProbes := tp\<rparr>)"
      by (rule at_ht_eq)
    then show ?thesis using st At inv
      by (auto simp: same_config_def split: option.splits)
  next
    case Size
    then show ?thesis using st inv count_card [OF inv] by (auto simp: size_ht_def)
  next
    case Empty
    then show ?thesis using st inv count_card [OF inv] by (auto simp: empty_ht_def)
  qed
qed

lemma refines_step_p0: "refines modVals step_p0"
  unfolding refines_def
proof (intro allI impI)
  fix ht :: "('a, 'b) HashTable" and x r ht'
  let ?M = modVals
  assume inv: "table_inv ?M ht" and st: "step_p0 ht x = (r, ht')" and nf: "\<not> fatal r"
  show "table_inv ?M ht' \<and> same_config ht ht' \<and> mIndex ht \<le> mIndex ht'
        \<and> lookup ?M ht' = abs_step (lookup ?M ht) x \<and> r = abs_outcome (lookup ?M ht) x"
  proof (cases x)
    case (Insert k v)
    show ?thesis unfolding Insert
      by (rule refines_insert [OF insert_p0_ok insert_p0_error inv _ nf])
         (use st Insert in simp_all)
  next
    case (Remove k)
    have r: "r = Done" and h: "ht' = remove_p0 ht k" using st Remove by auto
    have "table_inv ?M ht' \<and> same_config ht ht' \<and> mIndex ht \<le> mIndex ht'
         \<and> lookup ?M ht' = abs_step (lookup ?M ht) (Remove k)"
      by (rule refines_remove [OF inv], cases rule: remove_p0_cases [of ht k])
         (use h in auto)
    then show ?thesis using r Remove by simp
  next
    case (Find k)
    obtain tp where "find_p0 ht k = (lookup ?M ht k, ht\<lparr>totalProbes := tp\<rparr>)"
      by (rule find_p0_eq)
    then show ?thesis using st Find inv by (auto simp: same_config_def)
  next
    case (At k)
    obtain tp where "at_p0 ht k = ((case lookup ?M ht k of None \<Rightarrow> Inl KeyNotFound
                    | Some kv \<Rightarrow> Inr (snd kv)), ht\<lparr>totalProbes := tp\<rparr>)"
      by (rule at_p0_eq)
    then show ?thesis using st At inv
      by (auto simp: same_config_def split: option.splits)
  next
    case Size
    then show ?thesis using st inv count_card [OF inv] by (auto simp: size_ht_def)
  next
    case Empty
    then show ?thesis using st inv count_card [OF inv] by (auto simp: empty_ht_def)
  qed
qed

lemma run_with_refines:
  assumes rf: "refines mods stp"
  shows "table_inv mods ht \<Longrightarrow> run_with stp ht xs = (rs, ht') \<Longrightarrow> \<forall>r\<in>set rs. \<not> fatal r
    \<Longrightarrow> table_inv mods ht' \<and> same_config ht ht' \<and> mIndex ht \<le> mIndex ht'
        \<and> lookup mods ht' = foldl abs_step (lookup mods ht) xs
        \<and> rs = abs_outcomes (lookup mods ht) xs"
proof (induction xs arbitrary: ht rs)
  case Nil
  then show ?case by simp
next
  case (Cons x xs)
  obtain r h1 where s: "stp ht x = (r, h1)" by (cases "stp ht x")
  obtain rs1 h2 where t: "run_with stp h1 xs = (rs1, h2)" by (cases "run_with stp h1 xs")
  have e: "rs = r # rs1" "h2 = ht'" using Cons.prems(2) s t by simp_all
  have nf: "\<not> fatal r" "\<forall>r\<in>set rs1. \<not> fatal r" using Cons.prems(3) e by simp_all
  have a: "table_inv mods h1 \<and> same_config ht h1 \<and> mIndex ht \<le> mIndex h1
         \<and> lookup mods h1 = abs_step (lookup mods ht) x
         \<and> r = abs_outcome (lookup mods ht) x"
    using rf Cons.prems(1) s nf(1) unfolding refines_def by blast 
  then have inv1: "table_inv mods h1" by blast
  note IH = Cons.IH [OF inv1 t [unfolded e(2)] nf(2)]
  show ?case
    unfolding e(1) using a IH same_config_trans [of ht h1 ht'] by simp
qed



section \<open>Rounding to \<^verbatim>\<open>double\<close>\<close>

text \<open>
  \<open>ilog2\<close> is the binary exponent, \<open>round_double\<close> is monotone and leaves the integers below
  \<open>2\<^sup>5\<^sup>3\<close> as they are.
\<close>

lemma log2_nat_bounds: "0 < n \<Longrightarrow> 2 ^ log2_nat n \<le> n \<and> n < 2 ^ Suc (log2_nat n)"
proof (induction n rule: log2_nat.induct)
  case (1 n)
  show ?case
  proof (cases "n < 2")
    case True
    then have "n = 1" using "1.prems" by simp
    then show ?thesis by (simp add: log2_nat.simps)
  next
    case False
    then have p: "0 < n div 2" by simp
    note ih = "1.IH" [OF False p]
    have e: "log2_nat n = Suc (log2_nat (n div 2))" using False by (subst log2_nat.simps) simp
    have "2 * 2 ^ log2_nat (n div 2) \<le> 2 * (n div 2)" using ih by simp
    then have l: "2 * 2 ^ log2_nat (n div 2) \<le> n" by arith
    have "Suc (n div 2) \<le> 2 ^ Suc (log2_nat (n div 2))" using ih by simp
    then have "2 * Suc (n div 2) \<le> 2 * 2 ^ Suc (log2_nat (n div 2))" by simp
    then have "n < 2 * 2 ^ Suc (log2_nat (n div 2))" by arith
    then show ?thesis unfolding e using l by simp
  qed
qed

lemma ilog2_bounds:
  assumes "0 < x"
  shows "2 powi ilog2 x \<le> x" and "x < 2 powi (ilog2 x + 1)"
proof -
  obtain a b where q: "quotient_of x = (a, b)" by (cases "quotient_of x")
  have b: "0 < b" using quotient_of_denom_pos [OF q] .
  have x: "x = of_int a / of_int b" using quotient_of_div [OF q] .
  have a: "0 < a" using assms b unfolding x by (simp add: zero_less_divide_iff)
  define la lb where "la = log2_nat (nat a)" and "lb = log2_nat (nat b)"
  define d where "d = int la - int lb"
  have A: "(2::rat) ^ la \<le> of_int a" "(of_int a :: rat) < 2 ^ Suc la"
  proof -
    have "2 ^ la \<le> nat a" "nat a < 2 ^ Suc la"
      using log2_nat_bounds [of "nat a"] a unfolding la_def by simp_all
    then have "(2::int) ^ la \<le> a" "a < 2 ^ Suc la" using a by (simp_all add: le_nat_iff nat_less_iff)
    then show "(2::rat) ^ la \<le> of_int a" "(of_int a :: rat) < 2 ^ Suc la"
      by (metis of_int_le_iff of_int_numeral of_int_power, metis of_int_less_iff of_int_numeral of_int_power)
  qed
  have B: "(2::rat) ^ lb \<le> of_int b" "(of_int b :: rat) < 2 ^ Suc lb"
  proof -
    have "2 ^ lb \<le> nat b" "nat b < 2 ^ Suc lb"
      using log2_nat_bounds [of "nat b"] b unfolding lb_def by simp_all
    then have "(2::int) ^ lb \<le> b" "b < 2 ^ Suc lb" using b by (simp_all add: le_nat_iff nat_less_iff)
    then show "(2::rat) ^ lb \<le> of_int b" "(of_int b :: rat) < 2 ^ Suc lb"
      by (metis of_int_le_iff of_int_numeral of_int_power, metis of_int_less_iff of_int_numeral of_int_power)
  qed
  have bp: "(0::rat) < of_int b" using b by simp
  have pd: "(2::rat) powi d = 2 ^ la / 2 ^ lb"
    unfolding d_def by (simp add: power_int_diff)
  have up: "x < 2 powi (d + 1)"
  proof -
    have "x < 2 ^ Suc la / of_int b" unfolding x using A(2) bp by (simp add: divide_strict_right_mono)
    also have "\<dots> \<le> 2 ^ Suc la / 2 ^ lb" using B(1) by (simp add: frac_le)
    also have "\<dots> = 2 powi (d + 1)" unfolding d_def by (simp add: power_int_diff power_int_add)
    finally show ?thesis .
  qed
  have lo: "2 powi (d - 1) \<le> x"
  proof -
    have "(2::rat) powi (d - 1) = 2 ^ la / 2 ^ Suc lb"
      unfolding d_def by (simp add: power_int_diff)
    also have "\<dots> \<le> of_int a / 2 ^ Suc lb" using A(1) by (simp add: divide_right_mono)
    also have "\<dots> \<le> of_int a / of_int b" using B(2) a bp by (simp add: frac_le)
    finally show ?thesis unfolding x .
  qed
  have e: "ilog2 x = (if 2 powi d \<le> x then d else d - 1)"
    unfolding ilog2_def q d_def la_def lb_def by simp
  show "2 powi ilog2 x \<le> x" unfolding e using lo by simp
  show "x < 2 powi (ilog2 x + 1)" unfolding e using up by (simp add: not_le)
qed

lemma powi_less_exp: "(2::rat) powi m < 2 powi n \<Longrightarrow> m < n"
proof (rule ccontr)
  assume a: "(2::rat) powi m < 2 powi n" and "\<not> m < n"
  then have "n \<le> m" by simp
  then have "(2::rat) powi n \<le> 2 powi m" by (rule power_int_increasing) simp
  then show False using a by simp
qed

lemma ilog2_unique:
  assumes "2 powi e \<le> x" "x < 2 powi (e + 1)"
  shows "ilog2 x = e"
proof -
  have p: "0 < x" using assms(1) by (rule less_le_trans [rotated]) simp
  note b = ilog2_bounds [OF p]
  have "(2::rat) powi e < 2 powi (ilog2 x + 1)" using assms(1) b(2) by simp
  then have 1: "e < ilog2 x + 1" by (rule powi_less_exp)
  have "(2::rat) powi ilog2 x < 2 powi (e + 1)" using assms(2) b(1) by simp
  then have 2: "ilog2 x < e + 1" by (rule powi_less_exp)
  show ?thesis using 1 2 by simp
qed

lemma ilog2_mono: "0 < x \<Longrightarrow> x \<le> y \<Longrightarrow> ilog2 x \<le> ilog2 y"
proof -
  assume x: "0 < x" and le: "x \<le> y"
  then have y: "0 < y" by simp
  have "(2::rat) powi ilog2 x < 2 powi (ilog2 y + 1)"
    using ilog2_bounds(1) [OF x] ilog2_bounds(2) [OF y] le by simp
  then have "ilog2 x < ilog2 y + 1" by (rule powi_less_exp)
  then show ?thesis by simp
qed

lemma ilog2_rec:
  "0 < x \<Longrightarrow> ilog2 x = (if x < 1 then ilog2 (2 * x) - 1 else if 2 \<le> x then ilog2 (x / 2) + 1 else 0)"
proof -
  assume x: "0 < x"
  show ?thesis
  proof (cases "x < 1")
    case True
    have p: "0 < 2 * x" using x by simp
    note b = ilog2_bounds [OF p]
    have "ilog2 x = ilog2 (2 * x) - 1"
    proof (rule ilog2_unique)
      show "2 powi (ilog2 (2 * x) - 1) \<le> x" using b(1) by (simp add: power_int_diff)
      show "x < 2 powi (ilog2 (2 * x) - 1 + 1)" using b(2) by (simp add: power_int_add)
    qed
    then show ?thesis using True by simp
  next
    case False
    show ?thesis
    proof (cases "2 \<le> x")
      case True
      have p: "0 < x / 2" using x by simp
      note b = ilog2_bounds [OF p]
      have "ilog2 x = ilog2 (x / 2) + 1"
      proof (rule ilog2_unique)
        show "2 powi (ilog2 (x / 2) + 1) \<le> x" using b(1) by (simp add: power_int_add)
        show "x < 2 powi (ilog2 (x / 2) + 1 + 1)" using b(2) by (simp add: power_int_add)
      qed
      then show ?thesis using True False by simp
    next
      case F2: False
      have "ilog2 x = 0" by (rule ilog2_unique) (use False F2 in simp_all)
      then show ?thesis using False F2 by simp
    qed
  qed
qed


lemma round_half_even_floor: "\<lfloor>q\<rfloor> \<le> round_half_even q" "round_half_even q \<le> \<lfloor>q\<rfloor> + 1"
  by (simp_all add: round_half_even_def Let_def)

lemma round_half_even_of_int [simp]: "round_half_even (of_int n) = n"
  by (simp add: round_half_even_def)

lemma round_half_even_ge: "of_int n \<le> q \<Longrightarrow> n \<le> round_half_even q"
  using round_half_even_floor(1) [of q] by (simp add: le_floor_iff [symmetric])

lemma round_half_even_le:
  assumes "q \<le> of_int n"
  shows "round_half_even q \<le> n"
proof (cases "q = of_int n")
  case True
  then show ?thesis by simp
next
  case False
  then have "q < of_int n" using assms by simp
  then have "\<lfloor>q\<rfloor> < n" by (simp add: floor_less_iff)
  then show ?thesis using round_half_even_floor(2) [of q] by simp
qed

lemma round_half_even_mono:
  assumes "x \<le> y"
  shows "round_half_even x \<le> round_half_even y"
proof (cases "\<lfloor>x\<rfloor> = \<lfloor>y\<rfloor>")
  case True
  have "x - of_int \<lfloor>y\<rfloor> \<le> y - of_int \<lfloor>y\<rfloor>" using assms by simp
  then show ?thesis unfolding round_half_even_def Let_def True by auto
next
  case False
  have "\<lfloor>x\<rfloor> \<le> \<lfloor>y\<rfloor>" using assms by (rule floor_mono)
  then have "\<lfloor>x\<rfloor> + 1 \<le> \<lfloor>y\<rfloor>" using False by simp
  then show ?thesis
    using round_half_even_floor(2) [of x] round_half_even_floor(1) [of y] by simp
qed

lemma round_double_pos:
  "0 < x \<Longrightarrow> round_double x = of_int (round_half_even (x / 2 powi (ilog2 x - 52))) * 2 powi (ilog2 x - 52)"
  by (simp add: round_double_def Let_def)

lemma round_double_0 [simp]: "round_double 0 = 0"
  by (simp add: round_double_def)

lemma scaled_bounds:
  assumes "0 < x"
  shows "2 ^ 52 \<le> x / 2 powi (ilog2 x - 52)" and "x / 2 powi (ilog2 x - 52) < 2 ^ 53"
proof -
  note b = ilog2_bounds [OF assms]
  have p: "(0::rat) < 2 powi (ilog2 x - 52)" by simp
  have "(2::rat) ^ 52 * 2 powi (ilog2 x - 52) = 2 powi ilog2 x"
    by (simp add: power_int_diff)
  then show "2 ^ 52 \<le> x / 2 powi (ilog2 x - 52)"
    using b(1) p by (simp add: pos_le_divide_eq)
  have "(2::rat) ^ 53 * 2 powi (ilog2 x - 52) = 2 powi (ilog2 x + 1)"
    by (simp add: power_int_diff power_int_add)
  then show "x / 2 powi (ilog2 x - 52) < 2 ^ 53"
    using b(2) p by (simp add: pos_divide_less_eq)
qed

lemma round_double_bounds:
  assumes "0 < x"
  shows "2 powi ilog2 x \<le> round_double x" and "round_double x \<le> 2 powi (ilog2 x + 1)"
proof -
  let ?s = "ilog2 x - 52"
  let ?n = "round_half_even (x / 2 powi ?s)"
  note sb = scaled_bounds [OF assms]
  have "(of_int (2 ^ 52) :: rat) \<le> x / 2 powi ?s" using sb(1) by simp
  then have "2 ^ 52 \<le> ?n" by (rule round_half_even_ge)
  then have "(of_int (2 ^ 52) :: rat) \<le> of_int ?n" by (simp only: of_int_le_iff)
  then have "(of_int (2 ^ 52) :: rat) * 2 powi ?s \<le> of_int ?n * 2 powi ?s"
    by (rule mult_right_mono) simp
  then have l: "(2 ^ 52 :: rat) * 2 powi ?s \<le> of_int ?n * 2 powi ?s" by simp
  have le: "(2::rat) ^ 52 * 2 powi ?s = 2 powi ilog2 x" by (simp add: power_int_diff)
  show "2 powi ilog2 x \<le> round_double x"
    using l unfolding round_double_pos [OF assms] le .
  have "x / 2 powi ?s \<le> (of_int (2 ^ 53) :: rat)" using sb(2) by simp
  then have "?n \<le> 2 ^ 53" by (rule round_half_even_le)
  then have "(of_int ?n :: rat) \<le> of_int (2 ^ 53)" by (simp only: of_int_le_iff)
  then have "of_int ?n * 2 powi ?s \<le> (of_int (2 ^ 53) :: rat) * 2 powi ?s"
    by (rule mult_right_mono) simp
  then have u: "of_int ?n * 2 powi ?s \<le> (2 ^ 53 :: rat) * 2 powi ?s" by simp
  have ue: "(2::rat) ^ 53 * 2 powi ?s = 2 powi (ilog2 x + 1)"
    by (simp add: power_int_diff power_int_add)
  show "round_double x \<le> 2 powi (ilog2 x + 1)"
    using u unfolding round_double_pos [OF assms] ue .
qed

lemma round_double_nonneg: "0 \<le> x \<Longrightarrow> 0 \<le> round_double x"
proof (cases "x = 0")
  case True
  then show ?thesis by simp
next
  case False
  assume "0 \<le> x"
  then have p: "0 < x" using False by simp
  have "(0::rat) \<le> 2 powi ilog2 x" by simp
  then show ?thesis using round_double_bounds(1) [OF p] by (rule order_trans)
qed

lemma round_double_mono:
  assumes "0 \<le> x" "x \<le> y"
  shows "round_double x \<le> round_double y"
proof (cases "x = 0")
  case True
  then show ?thesis using round_double_nonneg [of y] assms by simp
next
  case False
  then have x: "0 < x" using assms by simp
  then have y: "0 < y" using assms by simp
  have le: "ilog2 x \<le> ilog2 y" using x assms(2) by (rule ilog2_mono)
  show ?thesis
  proof (cases "ilog2 x = ilog2 y")
    case True
    let ?s = "ilog2 y - 52"
    have "x / 2 powi ?s \<le> y / 2 powi ?s" using assms(2) by (simp add: divide_right_mono)
    then have "round_half_even (x / 2 powi ?s) \<le> round_half_even (y / 2 powi ?s)"
      by (rule round_half_even_mono)
    then have "(of_int (round_half_even (x / 2 powi ?s)) :: rat)
        \<le> of_int (round_half_even (y / 2 powi ?s))" by (simp only: of_int_le_iff)
    then show ?thesis
      unfolding round_double_pos [OF x] round_double_pos [OF y] True
      by (simp add: mult_right_mono)
  next
    case F: False
    then have "ilog2 x + 1 \<le> ilog2 y" using le by simp
    then have "(2::rat) powi (ilog2 x + 1) \<le> 2 powi ilog2 y"
      by (rule power_int_increasing) simp
    then show ?thesis
      using round_double_bounds(2) [OF x] round_double_bounds(1) [OF y] by simp
  qed
qed

lemma round_double_of_nat:
  assumes "n < 2 ^ 53"
  shows "round_double (of_nat n) = of_nat n"
proof (cases "n = 0")
  case True
  then show ?thesis by simp
next
  case False
  let ?x = "of_nat n :: rat"
  have x: "0 < ?x" using False by simp
  note b = ilog2_bounds [OF x]
  have "?x < 2 ^ 53" using assms by (metis of_nat_less_iff of_nat_numeral of_nat_power)
  then have "(2::rat) powi ilog2 ?x < 2 powi 53" using b(1) by simp
  then have u: "ilog2 ?x < 53" by (rule powi_less_exp)
  define k where "k = nat (52 - ilog2 ?x)"
  have s: "ilog2 ?x - 52 = - int k" using u by (simp add: k_def)
  have p: "(2::rat) powi (- int k) = 1 / 2 ^ k" by (simp add: power_int_minus field_simps)
  have "?x / 2 powi (ilog2 ?x - 52) = of_int (int n * 2 ^ k)"
    unfolding s p by simp
  then have r: "round_half_even (?x / 2 powi (ilog2 ?x - 52)) = int n * 2 ^ k"
    by (simp only: round_half_even_of_int)
  show ?thesis unfolding round_double_pos [OF x] r unfolding s p by simp
qed

lemma growth_test_nonneg: "0 \<le> round_double (double_of_nat a / double_of_nat b)"
  unfolding double_of_nat_def by (intro round_double_nonneg divide_nonneg_nonneg) simp_all

lemma double_of_nat_exact: "n < 2 ^ 53 \<Longrightarrow> double_of_nat n = of_nat n"
  unfolding double_of_nat_def by (rule round_double_of_nat)

lemma floor_numeral_div_rat:
  "\<lfloor>numeral a / numeral b :: rat\<rfloor> = numeral a div numeral b"
  "\<lfloor>1 / numeral b :: rat\<rfloor> = 1 div numeral b"
  using floor_divide_of_int_eq [of "numeral a" "numeral b", where ?'a = rat]
    floor_divide_of_int_eq [of 1 "numeral b", where ?'a = rat] by simp_all

lemma default_alpha_double:
  "round_double (2 / 5) = default_alpha" "round_double default_alpha = default_alpha"
  by (simp_all add: round_double_def ilog2_rec round_half_even_def Let_def floor_numeral_div_rat
        default_alpha_def)


lemma insert_fuel_with_unfold:
  "insert_fuel_with g p n =
     insert_with g p (case n of 0 \<Rightarrow> (\<lambda>ht p. (Some OutOfFuel, ht)) | Suc m \<Rightarrow> insert_fuel_with g p m)"
  by (cases n) simp_all

lemma replicate_numeral_Cons: "replicate (numeral n) x = x # replicate (pred_numeral n) x"
  by (simp add: numeral_eq_Suc)

lemma list_update_numeral_Cons: "(x # xs)[numeral n := y] = x # xs[pred_numeral n := y]"
  by (simp add: numeral_eq_Suc)

lemmas eval_defs =
  run_def run_p0_def insert_ht_def insert_p0_def insert_fuel_def insert_fuel_p0_def
  insert_with_def insert_at_probe_def resize_def needs_resize_def needs_resize_p0_def
  probe_def probe_p0_def probe_loop.simps probe_loop_p0.simps probe_stop_def
  LinearProber_next_def DoubleHashProber_next_def Prober_init_def DoubleHashProber_init_def
  DoubleHashProber_init_p0_def init_mod_def
  find_ht_def find_p0_def at_ht_def at_p0_def remove_ht_def remove_p0_def
  internalFind_def internalFind_p0_def size_ht_def empty_ht_def HashTable_init_def
  capCount_28 Let_def replicate_numeral_Cons list_update_numeral_Cons
  double_of_nat_exact round_double_def ilog2_rec round_half_even_def floor_numeral_div_rat
  default_alpha_def

lemma CAPACITIES_0: "CAPACITIES ! 0 = 11" by (simp add: CAPACITIES_def)
lemma CAPACITIES_1: "CAPACITIES ! 1 = 23" "CAPACITIES ! Suc 0 = 23" by (simp_all add: CAPACITIES_def)


lemma run_map:
  assumes "run (HashTable_init alpha pk h) xs = (rs, ht)" "\<forall>r\<in>set rs. \<not> fatal r"
  shows "table_inv DOUBLE_HASH_MOD_VALUES ht"
    and "lookup DOUBLE_HASH_MOD_VALUES ht = foldl abs_step Map.empty xs"
    and "rs = abs_outcomes Map.empty xs"
    and "same_config (HashTable_init alpha pk h) ht"
proof -
  let ?M = DOUBLE_HASH_MOD_VALUES
  let ?i = "HashTable_init alpha pk h :: ('a, 'b) HashTable"
  have e: "lookup ?M ?i = Map.empty" by (rule ext) (rule HashTable_init_inv(3))
  note r = run_with_refines [OF refines_step HashTable_init_inv(1) assms(1) [unfolded run_def] assms(2)]
  show "table_inv ?M ht" using r by blast
  show "lookup ?M ht = foldl abs_step Map.empty xs" using r e by simp
  show "rs = abs_outcomes Map.empty xs" using r e by simp
  show "same_config ?i ht" using r by blast
qed

lemma run_p0_map:
  assumes "run_p0 (HashTable_init alpha pk h) xs = (rs, ht)" "\<forall>r\<in>set rs. \<not> fatal r"
  shows "table_inv modVals ht"
    and "lookup modVals ht = foldl abs_step Map.empty xs"
    and "rs = abs_outcomes Map.empty xs"
proof -
  let ?M = modVals
  let ?i = "HashTable_init alpha pk h :: ('a, 'b) HashTable"
  have e: "lookup ?M ?i = Map.empty" by (rule ext) (rule HashTable_init_inv(3))
  note r = run_with_refines [OF refines_step_p0 HashTable_init_inv(1) assms(1) [unfolded run_p0_def] assms(2)]
  show "table_inv ?M ht" using r by blast
  show "lookup ?M ht = foldl abs_step Map.empty xs" using r e by simp
  show "rs = abs_outcomes Map.empty xs" using r e by simp
qed

text \<open>
  Claim C7, as stated: the two headers produce the same results and the same errors on every
  sequence of public operations. They do not: with load factor \<open>17/16\<close> and twelve distinct
  keys, the twelfth \<^verbatim>\<open>insert\<close> of \<^verbatim>\<open>ht.h\<close> grows the table and returns (its test is
  \<open>(11 + 1) / 11 \<ge> 17/16\<close>), while that of \<^verbatim>\<open>part_000\<close> tests \<open>11 / 11\<close>, does not grow, finds
  the table full and throws.
\<close>

theorem implementations_differ_counterexample:
  "fst (run (HashTable_init (17/16) UseLinearProber id)
      [Insert (0::nat) (0::nat), Insert 1 1, Insert 2 2, Insert 3 3, Insert 4 4, Insert 5 5,
       Insert 6 6, Insert 7 7, Insert 8 8, Insert 9 9, Insert 10 10, Insert 11 11])
     = [Done, Done, Done, Done, Done, Done, Done, Done, Done, Done, Done, Done]
   \<and> fst (run_p0 (HashTable_init (17/16) UseLinearProber id)
      [Insert (0::nat) (0::nat), Insert 1 1, Insert 2 2, Insert 3 3, Insert 4 4, Insert 5 5,
       Insert 6 6, Insert 7 7, Insert 8 8, Insert 9 9, Insert 10 10, Insert 11 11])
     = [Done, Done, Done, Done, Done, Done, Done, Done, Done, Done, Done, Raised TableFull]"
  by (simp add: eval_defs insert_fuel_with_unfold CAPACITIES_0 CAPACITIES_1 sizes_eq
        length_CAPACITIES)

text \<open>
  Claim C7, amended: on every sequence of public operations on which no \<^verbatim>\<open>insert\<close> throws
  in either header, the two headers produce the same outcomes (the same values of
  \<^verbatim>\<open>find\<close>, \<^verbatim>\<open>at\<close>, \<^verbatim>\<open>size\<close>, \<^verbatim>\<open>empty\<close> and the same \<open>KeyNotFound\<close> errors of \<^verbatim>\<open>at\<close>) and end
  in tables that hold the same pairs. They may throw at different moments, since
  \<^verbatim>\<open>ht.h\<close> grows on \<open>(used + 1) / capacity\<close> and \<^verbatim>\<open>part_000\<close> on \<open>used / capacity\<close>.
\<close>

theorem implementations_agree:
  assumes "run (HashTable_init alpha pk h) xs = (rs, ht)"
    and "run_p0 (HashTable_init alpha pk h) xs = (rs', ht')"
    and "\<forall>r\<in>set rs. \<not> fatal r" and "\<forall>r\<in>set rs'. \<not> fatal r"
  shows "rs = rs' \<and> (\<forall>k. fst (find_ht ht k) = fst (find_p0 ht' k)) \<and> size_ht ht = size_ht ht'"
proof -
  note a = run_map [OF assms(1,3)]
  note b = run_p0_map [OF assms(2,4)]
  have "lookup DOUBLE_HASH_MOD_VALUES ht = lookup modVals ht'" using a(2) b(2) by simp
  then show ?thesis
    using a(3) b(3) count_card [OF a(1)] count_card [OF b(1)]
    by (simp add: find_ht_lookup(1) find_p0_lookup(1) size_ht_def)
qed

theorem implementations_agree_witness:
  "fst (run (HashTable_init default_alpha UseLinearProber id)
      [Insert (0::nat) (10::nat), Insert 11 20, Remove 0, Find 11, At 0, Size, Empty,
       Insert 1 1, Insert 2 2, Insert 3 3, Find 3])
     = [Done, Done, Done, Found (Some (11, 20)), Raised KeyNotFound, Count 1, Flag False,
        Done, Done, Done, Found (Some (3, 3))]
   \<and> fst (run_p0 (HashTable_init default_alpha UseLinearProber id)
      [Insert (0::nat) (10::nat), Insert 11 20, Remove 0, Find 11, At 0, Size, Empty,
       Insert 1 1, Insert 2 2, Insert 3 3, Find 3])
     = [Done, Done, Done, Found (Some (11, 20)), Raised KeyNotFound, Count 1, Flag False,
        Done, Done, Done, Found (Some (3, 3))]
   \<and> mIndex (snd (run (HashTable_init default_alpha UseLinearProber id)
      [Insert (0::nat) (10::nat), Insert 11 20, Remove 0, Find 11, At 0, Size, Empty,
       Insert 1 1, Insert 2 2, Insert 3 3, Find 3])) = 1
   \<and> mIndex (snd (run_p0 (HashTable_init default_alpha UseLinearProber id)
      [Insert (0::nat) (10::nat), Insert 11 20, Remove 0, Find 11, At 0, Size, Empty,
       Insert 1 1, Insert 2 2, Insert 3 3, Find 3])) = 0
   \<and> size_ht (snd (run (HashTable_init default_alpha UseLinearProber id)
      [Insert (0::nat) (10::nat), Insert 11 20, Remove 0, Find 11, At 0, Size, Empty,
       Insert 1 1, Insert 2 2, Insert 3 3, Find 3]))
     = size_ht (snd (run_p0 (HashTable_init default_alpha UseLinearProber id)
      [Insert (0::nat) (10::nat), Insert 11 20, Remove 0, Find 11, At 0, Size, Empty,
       Insert 1 1, Insert 2 2, Insert 3 3, Find 3]))"
proof -
  let ?ops = "[Insert (0::nat) (10::nat), Insert 11 20, Remove 0, Find 11, At 0, Size, Empty,
       Insert 1 1, Insert 2 2, Insert 3 3, Find 3]"
  let ?a = "run (HashTable_init default_alpha UseLinearProber id) ?ops"
  let ?b = "run_p0 (HashTable_init default_alpha UseLinearProber id) ?ops"
  have ra: "fst ?a = [Done, Done, Done, Found (Some (11, 20)), Raised KeyNotFound, Count 1,
        Flag False, Done, Done, Done, Found (Some (3, 3))]"
    by (simp add: eval_defs insert_fuel_with_unfold CAPACITIES_0 CAPACITIES_1)
  have rb: "fst ?b = [Done, Done, Done, Found (Some (11, 20)), Raised KeyNotFound, Count 1,
        Flag False, Done, Done, Done, Found (Some (3, 3))]"
    by (simp add: eval_defs insert_fuel_with_unfold CAPACITIES_0 CAPACITIES_1 sizes_eq
          length_CAPACITIES)
  have ma: "mIndex (snd ?a) = 1"
    by (simp add: eval_defs insert_fuel_with_unfold CAPACITIES_0 CAPACITIES_1)
  have mb: "mIndex (snd ?b) = 0"
    by (simp add: eval_defs insert_fuel_with_unfold CAPACITIES_0 CAPACITIES_1 sizes_eq
          length_CAPACITIES)
  have pa: "?a = (fst ?a, snd ?a)" and pb: "?b = (fst ?b, snd ?b)" by simp_all
  have na: "\<forall>r\<in>set (fst ?a). \<not> fatal r" unfolding ra by simp
  have nb: "\<forall>r\<in>set (fst ?b). \<not> fatal r" unfolding rb by simp
  show ?thesis using ra rb ma mb implementations_agree [OF pa pb na nb] by simp
qed

text \<open>
  Claim C4. In a table built by public operations (none of whose inserts threw): if \<open>k\<close> is
  live, then after \<^verbatim>\<open>remove(k)\<close> \<^verbatim>\<open>find(k)\<close> returns \<^verbatim>\<open>nullptr\<close>, \<^verbatim>\<open>size()\<close> is one less and
  \<^verbatim>\<open>used_\<close> is unchanged; if \<open>k\<close> is not present, \<^verbatim>\<open>remove(k)\<close> returns normally and leaves the
  slots, \<^verbatim>\<open>size()\<close>, \<^verbatim>\<open>used_\<close> and \<^verbatim>\<open>mIndex_\<close> as they were.
\<close>

theorem remove_visible:
  assumes "run (HashTable_init alpha pk h) xs = (rs, ht)" and "\<forall>r\<in>set rs. \<not> fatal r"
  shows "(fst (find_ht ht k) \<noteq> None \<longrightarrow>
            fst (find_ht (remove_ht ht k) k) = None
            \<and> size_ht (remove_ht ht k) + 1 = size_ht ht
            \<and> used (remove_ht ht k) = used ht)
       \<and> (fst (find_ht ht k) = None \<longrightarrow>
            fst (step ht (Remove k)) = Done
            \<and> table (remove_ht ht k) = table ht
            \<and> size_ht (remove_ht ht k) = size_ht ht
            \<and> used (remove_ht ht k) = used ht
            \<and> mIndex (remove_ht ht k) = mIndex ht)"
proof -
  let ?M = DOUBLE_HASH_MOD_VALUES
  have inv: "table_inv ?M ht" using run_map(1) [OF assms] .
  show ?thesis
  proof (cases rule: remove_ht_cases [of ht k])
    case (absent tp)
    then show ?thesis by (simp add: find_ht_lookup(1) size_ht_def)
  next
    case (present l hi tp)
    note t = tombstone_post [OF inv present(1,2)]
    have "lookup ?M ht k = Some (item hi)" using lookup_located [OF present(1,2)] .
    moreover have "lookup ?M (remove_ht ht k) k = None"
      unfolding present(3) t(2) by simp
    moreover have "count (remove_ht ht k) + 1 = count ht"
      unfolding present(3) using t(3) by simp
    moreover have "used (remove_ht ht k) = used ht" unfolding present(3) by simp
    ultimately show ?thesis by (simp add: find_ht_lookup(1) size_ht_def)
  qed
qed

theorem remove_visible_witness:
  "fst (run (HashTable_init default_alpha UseLinearProber id)
          [Insert (0::nat) (10::nat), Insert 11 20, Insert 1 30])
     = [Done, Done, Done]
   \<and> fst (find_ht (snd (run (HashTable_init default_alpha UseLinearProber id)
          [Insert (0::nat) (10::nat), Insert 11 20, Insert 1 30])) 11) = Some (11, 20)
   \<and> fst (find_ht (remove_ht (snd (run (HashTable_init default_alpha UseLinearProber id)
          [Insert (0::nat) (10::nat), Insert 11 20, Insert 1 30])) 11) 11) = None
   \<and> size_ht (remove_ht (snd (run (HashTable_init default_alpha UseLinearProber id)
          [Insert (0::nat) (10::nat), Insert 11 20, Insert 1 30])) 11) = 2
   \<and> fst (find_ht (snd (run (HashTable_init default_alpha UseLinearProber id)
          [Insert (0::nat) (10::nat), Insert 11 20, Insert 1 30])) 22) = None
   \<and> size_ht (remove_ht (snd (run (HashTable_init default_alpha UseLinearProber id)
          [Insert (0::nat) (10::nat), Insert 11 20, Insert 1 30])) 22) = 3"
proof -
  let ?run = "run (HashTable_init default_alpha UseLinearProber id)
          [Insert (0::nat) (10::nat), Insert 11 20, Insert 1 30]"
  have rs: "fst ?run = [Done, Done, Done]"
    by (simp add: eval_defs insert_fuel_with_unfold CAPACITIES_0 CAPACITIES_1)
  have sz: "size_ht (snd ?run) = 3"
    by (simp add: eval_defs insert_fuel_with_unfold CAPACITIES_0 CAPACITIES_1)
  have f1: "fst (find_ht (snd ?run) 11) = Some (11, 20)"
    by (simp add: eval_defs insert_fuel_with_unfold CAPACITIES_0 CAPACITIES_1)
  have f2: "fst (find_ht (snd ?run) 22) = None"
    by (simp add: eval_defs insert_fuel_with_unfold CAPACITIES_0 CAPACITIES_1)
  have r: "?run = (fst ?run, snd ?run)" by simp
  have nf: "\<forall>r\<in>set (fst ?run). \<not> fatal r" unfolding rs by simp
  show ?thesis
    using rs sz f1 f2 remove_visible [OF r nf, of 11] remove_visible [OF r nf, of 22] by simp
qed

text \<open>
  Claim C9 on \<^verbatim>\<open>src/ht.h\<close>: after \<^verbatim>\<open>insert(1, 10)\<close> and \<^verbatim>\<open>remove(1)\<close> the key is gone for
  \<^verbatim>\<open>find\<close> and \<^verbatim>\<open>size()\<close> is 0, yet \<^verbatim>\<open>reportAll\<close> of \<^verbatim>\<open>ht.h\<close> still lists the tombstoned
  bucket, because it tests \<^verbatim>\<open>if (table_[i])\<close> only. \<^verbatim>\<open>reportAll\<close> of \<^verbatim>\<open>part_000\<close>, which
  tests \<^verbatim>\<open>table_[i] && !table_[i]->deleted\<close>, lists nothing.
\<close>

theorem reportAll_lists_tombstone:
  "fst (run (HashTable_init default_alpha UseLinearProber id) [Insert (1::nat) (10::nat), Remove 1, Find 1, Size])
     = [Done, Done, Found None, Count 0]
   \<and> reportAll (snd (run (HashTable_init default_alpha UseLinearProber id)
        [Insert (1::nat) (10::nat), Remove 1, Find 1, Size])) = [(1, 1, 10)]
   \<and> reportAll_p0 (snd (run_p0 (HashTable_init default_alpha UseLinearProber id)
        [Insert (1::nat) (10::nat), Remove 1, Find 1, Size])) = []"
  by (simp add: eval_defs insert_fuel_with_unfold CAPACITIES_0 CAPACITIES_1 sizes_eq
        length_CAPACITIES reportAll_def reportAll_p0_def)

text \<open>
  Claim C3. In a table built by public operations, whenever a call of \<^verbatim>\<open>resize\<close> (the growth
  step of an \<^verbatim>\<open>insert\<close>) returns, \<^verbatim>\<open>find\<close> gives for every key what it gave before the growth,
  so every live key is still found with its value; \<^verbatim>\<open>size()\<close> is unchanged; and the new table
  holds no tombstone: its non-null slots are exactly the \<^verbatim>\<open>size()\<close> live items. \<open>n\<close> is the
  recursion depth left to the nested inserts; the statement holds for every \<open>n\<close>.
\<close>

theorem growth_keeps_live_entries:
  assumes "run (HashTable_init alpha pk h) xs = (rs, ht)" and "\<forall>r\<in>set rs. \<not> fatal r"
    and "resize (insert_fuel n) ht = (None, ht')"
  shows "(\<forall>k. fst (find_ht ht' k) = fst (find_ht ht k))
       \<and> size_ht ht' = size_ht ht
       \<and> mIndex ht < mIndex ht'
       \<and> (\<forall>hi. Some hi \<in> set (table ht') \<longrightarrow> \<not> deleted hi)
       \<and> length (filter (\<lambda>s. s \<noteq> None) (table ht')) = size_ht ht"
proof -
  let ?M = DOUBLE_HASH_MOD_VALUES
  have inv: "table_inv ?M ht" using run_map(1) [OF assms(1,2)] .
  have ok: "ins_ok ?M (insert_fuel n)"
    unfolding insert_fuel_def by (rule ins_ok_insert_fuel_with [OF probe_ok_probe])
  note p = resize_post [OF ok inv assms(3)]
  have c: "count ht' = count ht" using p count_card [OF inv] count_card [of ?M ht'] by simp
  have u: "used ht' = count ht'" "\<forall>hi. Some hi \<in> set (table ht') \<longrightarrow> \<not> deleted hi"
    using p by (simp_all add: tombfree_def)
  have n: "used ht' = length (filter (\<lambda>s. s \<noteq> None) (table ht'))"
    using p unfolding table_inv_def by blast
  show ?thesis
    using p c u n by (simp add: find_ht_lookup(1) size_ht_def)
qed

theorem growth_keeps_live_entries_witness:
  "fst (run (HashTable_init default_alpha UseLinearProber id)
          [Insert (0::nat) (10::nat), Insert 11 20, Insert 1 30, Remove 11]) = [Done, Done, Done, Done]
   \<and> fst (resize (insert_fuel 27) (snd (run (HashTable_init default_alpha UseLinearProber id)
          [Insert (0::nat) (10::nat), Insert 11 20, Insert 1 30, Remove 11]))) = None
   \<and> size_ht (snd (resize (insert_fuel 27) (snd (run (HashTable_init default_alpha UseLinearProber id)
          [Insert (0::nat) (10::nat), Insert 11 20, Insert 1 30, Remove 11])))) = 2
   \<and> mIndex (snd (resize (insert_fuel 27) (snd (run (HashTable_init default_alpha UseLinearProber id)
          [Insert (0::nat) (10::nat), Insert 11 20, Insert 1 30, Remove 11])))) = 1
   \<and> fst (find_ht (snd (resize (insert_fuel 27) (snd (run (HashTable_init default_alpha UseLinearProber id)
          [Insert (0::nat) (10::nat), Insert 11 20, Insert 1 30, Remove 11])))) 1) = Some (1, 30)
   \<and> fst (find_ht (snd (resize (insert_fuel 27) (snd (run (HashTable_init default_alpha UseLinearProber id)
          [Insert (0::nat) (10::nat), Insert 11 20, Insert 1 30, Remove 11])))) 11) = None"
proof -
  let ?run = "run (HashTable_init default_alpha UseLinearProber id)
          [Insert (0::nat) (10::nat), Insert 11 20, Insert 1 30, Remove 11]"
  let ?g = "resize (insert_fuel 27) (snd ?run)"
  have rs: "fst ?run = [Done, Done, Done, Done]"
    by (simp add: eval_defs insert_fuel_with_unfold CAPACITIES_0 CAPACITIES_1)
  have g: "fst ?g = None"
    by (simp add: eval_defs insert_fuel_with_unfold CAPACITIES_0 CAPACITIES_1)
  have m: "mIndex (snd ?g) = 1"
    by (simp add: eval_defs insert_fuel_with_unfold CAPACITIES_0 CAPACITIES_1)
  have f1: "fst (find_ht (snd ?run) 1) = Some (1, 30)"
    by (simp add: eval_defs insert_fuel_with_unfold CAPACITIES_0 CAPACITIES_1)
  have f2: "fst (find_ht (snd ?run) 11) = None"
    by (simp add: eval_defs insert_fuel_with_unfold CAPACITIES_0 CAPACITIES_1)
  have sz: "size_ht (snd ?run) = 2"
    by (simp add: eval_defs insert_fuel_with_unfold CAPACITIES_0 CAPACITIES_1)
  have r: "?run = (fst ?run, snd ?run)" by simp
  have nf: "\<forall>r\<in>set (fst ?run). \<not> fatal r" unfolding rs by simp
  have gg: "?g = (None, snd ?g)" using g by (metis prod.collapse)
  show ?thesis
    using rs g m f1 f2 sz growth_keeps_live_entries [OF r nf gg] by simp
qed

text \<open>
  Claim C5, amended: when the growth test of an \<^verbatim>\<open>insert\<close> fires in a table that is already on
  the last rung of the capacity ladder, the \<^verbatim>\<open>insert\<close> throws \<open>CapacityExhausted\<close> and every
  member of the table, \<^verbatim>\<open>totalProbes_\<close> included, is as before the call. This holds for every
  table, whatever its contents.
\<close>

theorem capacity_exhausted_unchanged:
  assumes "needs_resize ht" and "capCount \<le> mIndex ht + 1"
  shows "insert_ht ht p = (Some CapacityExhausted, ht)"
  using assms
  by (simp add: insert_ht_def insert_fuel_def capCount_28 insert_fuel_with_unfold
        insert_with_def resize_def)

theorem capacity_exhausted_unchanged_witness:
  "needs_resize
     \<lparr>table = replicate 674303666 (Some \<lparr>item = (0::nat, 0::nat), deleted = True\<rparr>)
               @ replicate 1011455501 None,
      prober = UseLinearProber, hash = id, resizeAlpha = default_alpha, totalProbes = 0,
      mIndex = 27, count = 0, used = 674303666\<rparr>
   \<and> fst (insert_ht
       \<lparr>table = replicate 674303666 (Some \<lparr>item = (0::nat, 0::nat), deleted = True\<rparr>)
               @ replicate 1011455501 None,
      prober = UseLinearProber, hash = id, resizeAlpha = default_alpha, totalProbes = 0,
      mIndex = 27, count = 0, used = 674303666\<rparr> (1, 1)) = Some CapacityExhausted
   \<and> used (snd (insert_ht
       \<lparr>table = replicate 674303666 (Some \<lparr>item = (0::nat, 0::nat), deleted = True\<rparr>)
               @ replicate 1011455501 None,
      prober = UseLinearProber, hash = id, resizeAlpha = default_alpha, totalProbes = 0,
      mIndex = 27, count = 0, used = 674303666\<rparr> (1, 1))) = 674303666
   \<and> mIndex (snd (insert_ht
       \<lparr>table = replicate 674303666 (Some \<lparr>item = (0::nat, 0::nat), deleted = True\<rparr>)
               @ replicate 1011455501 None,
      prober = UseLinearProber, hash = id, resizeAlpha = default_alpha, totalProbes = 0,
      mIndex = 27, count = 0, used = 674303666\<rparr> (1, 1))) = 27"
proof -
  let ?ht = "\<lparr>table = replicate 674303666 (Some \<lparr>item = (0::nat, 0::nat), deleted = True\<rparr>)
               @ replicate 1011455501 None,
      prober = UseLinearProber, hash = id, resizeAlpha = default_alpha, totalProbes = 0,
      mIndex = 27, count = 0, used = 674303666\<rparr>"
  have n: "needs_resize ?ht"
    by (simp add: needs_resize_def double_of_nat_exact round_double_def ilog2_rec
          round_half_even_def Let_def floor_numeral_div_rat default_alpha_def)
  have c: "capCount \<le> mIndex ?ht + 1" by (simp add: capCount_28)
  show ?thesis using n capacity_exhausted_unchanged [OF n c, of "(1, 1)"] by simp
qed

lemma CAPACITIES_27: "CAPACITIES ! 27 = 1685759167" by (simp add: CAPACITIES_def)

lemma probe_stops_at:
  assumes "fst (probe ht k) = Some l"
  shows "table ht ! l = None \<or> (\<exists>hi. table ht ! l = Some hi \<and> \<not> deleted hi \<and> fst (item hi) = k)"
proof -
  have "locate (probe_sequence DOUBLE_HASH_MOD_VALUES (prober ht) (hash ht) (mIndex ht) k)
          (table ht) k = Some l"
    using assms by (simp add: fst_probe)
  from locate_SomeD [OF this] have "probe_stop (table ht) k l" by simp
  then show ?thesis by (cases "table ht ! l") (simp_all add: probe_stop_def)
qed

lemma insert_ht_unfold:
  "insert_ht = insert_with needs_resize probe (insert_fuel (capCount - 1))"
  by (simp add: insert_ht_def insert_fuel_def capCount_28 insert_fuel_with_unfold [of _ _ 28])

text \<open>
  Claim C10, as stated: after \<^verbatim>\<open>remove(k)\<close>, an \<^verbatim>\<open>insert\<close> of any key whose probe sequence runs
  through the slot of \<open>k\<close> occupies a fresh empty slot and increments \<^verbatim>\<open>used_\<close>. It does not
  when that key is live. Keys 0 and 11 both start at slot 0 of the 11 slots; 0 is stored in
  slot 0, 11 in slot 1. After \<^verbatim>\<open>remove(0)\<close>, \<^verbatim>\<open>insert(11, 30)\<close> probes slot 0 (a tombstone),
  then slot 1, finds key 11 there and overwrites its value: \<^verbatim>\<open>used_\<close> stays 2 and the nine
  empty slots stay empty.
\<close>

theorem insert_through_tombstone_counterexample:
  "fst (run (HashTable_init default_alpha UseLinearProber id)
          [Insert (0::nat) (10::nat), Insert 11 20, Remove 0]) = [Done, Done, Done]
   \<and> table (snd (run (HashTable_init default_alpha UseLinearProber id)
          [Insert (0::nat) (10::nat), Insert 11 20, Remove 0])) ! 0
       = Some \<lparr>item = (0, 10), deleted = True\<rparr>
   \<and> hash (snd (run (HashTable_init default_alpha UseLinearProber id)
          [Insert (0::nat) (10::nat), Insert 11 20, Remove 0])) 11 mod 11 = 0
   \<and> used (snd (run (HashTable_init default_alpha UseLinearProber id)
          [Insert (0::nat) (10::nat), Insert 11 20, Remove 0])) = 2
   \<and> length (filter (\<lambda>s. s = None) (table (snd (run (HashTable_init default_alpha UseLinearProber id)
          [Insert (0::nat) (10::nat), Insert 11 20, Remove 0])))) = 9
   \<and> fst (insert_ht (snd (run (HashTable_init default_alpha UseLinearProber id)
          [Insert (0::nat) (10::nat), Insert 11 20, Remove 0])) (11, 30)) = None
   \<and> used (snd (insert_ht (snd (run (HashTable_init default_alpha UseLinearProber id)
          [Insert (0::nat) (10::nat), Insert 11 20, Remove 0])) (11, 30))) = 2
   \<and> length (filter (\<lambda>s. s = None) (table (snd (insert_ht (snd (run
          (HashTable_init default_alpha UseLinearProber id)
          [Insert (0::nat) (10::nat), Insert 11 20, Remove 0])) (11, 30))))) = 9
   \<and> table (snd (insert_ht (snd (run (HashTable_init default_alpha UseLinearProber id)
          [Insert (0::nat) (10::nat), Insert 11 20, Remove 0])) (11, 30))) ! 1
       = Some \<lparr>item = (11, 30), deleted = False\<rparr>"
  by (simp add: eval_defs insert_fuel_with_unfold CAPACITIES_0 CAPACITIES_1)

text \<open>
  Claim C10, amended. In a table built by public operations:
  \<^item> \<^verbatim>\<open>probe\<close> returns only an empty slot or a slot with a live item of the probed key, never
    a tombstoned one;
  \<^item> an \<^verbatim>\<open>insert(k, v)\<close> that returns without growing the table leaves every tombstoned slot
    as it is; if \<open>k\<close> is not live (never inserted, or removed: re-inserting a removed key is
    the case in point) it writes the pair into a slot that was empty and increments \<^verbatim>\<open>used_\<close>;
    if \<open>k\<close> is live it overwrites the value in the slot of \<open>k\<close> and \<^verbatim>\<open>used_\<close> is unchanged;
  \<^item> an \<^verbatim>\<open>insert\<close> that grows the table returns a table without tombstones.
\<close>

theorem insert_skips_tombstones:
  assumes "run (HashTable_init alpha pk h) xs = (rs, ht)" and "\<forall>r\<in>set rs. \<not> fatal r"
    and "insert_ht ht (k, v) = (None, ht')"
  shows "(\<forall>l. fst (probe ht k) = Some l \<longrightarrow>
            table ht ! l = None
            \<or> (\<exists>hi. table ht ! l = Some hi \<and> \<not> deleted hi \<and> fst (item hi) = k))
       \<and> (\<not> needs_resize ht \<longrightarrow>
            (\<forall>i<length (table ht). \<forall>hi. table ht ! i = Some hi \<and> deleted hi
                \<longrightarrow> table ht' ! i = Some hi)
            \<and> (fst (find_ht ht k) = None \<longrightarrow>
                 used ht' = used ht + 1
                 \<and> (\<exists>l<length (table ht). table ht ! l = None
                       \<and> table ht' = (table ht)[l := Some \<lparr>item = (k, v), deleted = False\<rparr>]))
            \<and> (fst (find_ht ht k) \<noteq> None \<longrightarrow>
                 used ht' = used ht
                 \<and> (\<exists>l<length (table ht). \<exists>hi. table ht ! l = Some hi \<and> \<not> deleted hi
                       \<and> fst (item hi) = k
                       \<and> table ht' = (table ht)[l := Some (hi\<lparr>item := (k, v)\<rparr>)])))
       \<and> (needs_resize ht \<longrightarrow> (\<forall>hi. Some hi \<in> set (table ht') \<longrightarrow> \<not> deleted hi))"
proof -
  let ?M = DOUBLE_HASH_MOD_VALUES
  have inv: "table_inv ?M ht" using run_map(1) [OF assms(1,2)] .
  have i: "insert_with needs_resize probe (insert_fuel (capCount - 1)) ht (k, v) = (None, ht')"
    using assms(3) by (simp add: insert_ht_unfold)
  have ok: "ins_ok ?M (insert_fuel (capCount - 1))"
    unfolding insert_fuel_def by (rule ins_ok_insert_fuel_with [OF probe_ok_probe])
  have A: "\<forall>l. fst (probe ht k) = Some l \<longrightarrow>
            table ht ! l = None
            \<or> (\<exists>hi. table ht ! l = Some hi \<and> \<not> deleted hi \<and> fst (item hi) = k)"
    by (intro allI impI) (rule probe_stops_at)
  have B: "(\<forall>i<length (table ht). \<forall>hi. table ht ! i = Some hi \<and> deleted hi
                \<longrightarrow> table ht' ! i = Some hi)
            \<and> (fst (find_ht ht k) = None \<longrightarrow>
                 used ht' = used ht + 1
                 \<and> (\<exists>l<length (table ht). table ht ! l = None
                       \<and> table ht' = (table ht)[l := Some \<lparr>item = (k, v), deleted = False\<rparr>]))
            \<and> (fst (find_ht ht k) \<noteq> None \<longrightarrow>
                 used ht' = used ht
                 \<and> (\<exists>l<length (table ht). \<exists>hi. table ht ! l = Some hi \<and> \<not> deleted hi
                       \<and> fst (item hi) = k
                       \<and> table ht' = (table ht)[l := Some (hi\<lparr>item := (k, v)\<rparr>)]))"
    if n: "\<not> needs_resize ht"
  proof -
    have a: "insert_at_probe probe ht (k, v) = (None, ht')"
      using insert_with_cases [OF i] n by blast
    from probe_ok_probe show ?thesis
    proof (cases rule: insert_at_probe_cases [where ht = ht and k = k and v = v])
      case (full tp)
      then show ?thesis using a by simp
    next
      case (fresh l tp)
      have ll: "l < length (table ht)"
        using locate_SomeD [OF fresh(1)] table_inv_range [OF inv] by blast
      have h: "ht' = ht\<lparr>totalProbes := tp,
                      table := (table ht)[l := Some \<lparr>item = (k, v), deleted = False\<rparr>],
                      count := count ht + 1, used := used ht + 1\<rparr>"
        using a fresh(3) by simp
      have f: "fst (find_ht ht k) = None"
        using fresh(1,2) by (simp add: find_ht_lookup(1) lookup_def lookup_in_def)
      have t: "\<forall>i<length (table ht). \<forall>hi. table ht ! i = Some hi \<and> deleted hi
                \<longrightarrow> table ht' ! i = Some hi"
      proof (intro allI impI)
        fix i hi assume "i < length (table ht)" "table ht ! i = Some hi \<and> deleted hi"
        then show "table ht' ! i = Some hi"
          using fresh(2) ll unfolding h by (cases "i = l") auto
      qed
      have u: "used ht' = used ht + 1" unfolding h by simp
      have e: "\<exists>l<length (table ht). table ht ! l = None
                 \<and> table ht' = (table ht)[l := Some \<lparr>item = (k, v), deleted = False\<rparr>]"
        using ll fresh(2) unfolding h by (intro exI [of _ l]) simp
      show ?thesis
      proof (intro conjI impI)
        show "\<forall>i<length (table ht). \<forall>hi. table ht ! i = Some hi \<and> deleted hi
                \<longrightarrow> table ht' ! i = Some hi" by (rule t)
        show "used ht' = used ht + 1" by (rule u)
        show "\<exists>l<length (table ht). table ht ! l = None
                 \<and> table ht' = (table ht)[l := Some \<lparr>item = (k, v), deleted = False\<rparr>]"
          by (rule e)
      qed (use f in simp_all)
    next
      case (over l hi tp)
      have ll: "l < length (table ht)"
        using locate_SomeD [OF over(1)] table_inv_range [OF inv] by blast
      have live: "\<not> deleted hi" "fst (item hi) = k"
        using locate_SomeD [OF over(1)] over(2) by (auto simp: probe_stop_Some)
      have h: "ht' = ht\<lparr>totalProbes := tp,
                      table := (table ht)[l := Some (hi\<lparr>item := (fst (item hi), v)\<rparr>)]\<rparr>"
        using a over(3) by simp
      have f: "fst (find_ht ht k) \<noteq> None"
        using lookup_located [OF over(1,2)] by (simp add: find_ht_lookup(1))
      have t: "\<forall>i<length (table ht). \<forall>hj. table ht ! i = Some hj \<and> deleted hj
                \<longrightarrow> table ht' ! i = Some hj"
      proof (intro allI impI)
        fix i hj assume "i < length (table ht)" "table ht ! i = Some hj \<and> deleted hj"
        then show "table ht' ! i = Some hj"
          using over(2) live ll unfolding h by (cases "i = l") auto
      qed
      have u: "used ht' = used ht" unfolding h by simp
      have "table ht' = (table ht)[l := Some (hi\<lparr>item := (k, v)\<rparr>)]"
        using live unfolding h by simp
      then have e: "\<exists>l<length (table ht). \<exists>hi. table ht ! l = Some hi \<and> \<not> deleted hi
                       \<and> fst (item hi) = k
                       \<and> table ht' = (table ht)[l := Some (hi\<lparr>item := (k, v)\<rparr>)]"
        using ll over(2) live by blast
      show ?thesis
      proof (intro conjI impI)
        show "\<forall>i<length (table ht). \<forall>hi. table ht ! i = Some hi \<and> deleted hi
                \<longrightarrow> table ht' ! i = Some hi" by (rule t)
        show "used ht' = used ht" by (rule u)
        show "\<exists>l<length (table ht). \<exists>hi. table ht ! l = Some hi \<and> \<not> deleted hi
                       \<and> fst (item hi) = k
                       \<and> table ht' = (table ht)[l := Some (hi\<lparr>item := (k, v)\<rparr>)]"
          by (rule e)
      qed (use f in simp_all)
    qed
  qed
  have C: "\<forall>hi. Some hi \<in> set (table ht') \<longrightarrow> \<not> deleted hi" if n: "needs_resize ht"
  proof -
    obtain ht1 where r: "resize (insert_fuel (capCount - 1)) ht = (None, ht1)"
      and a: "insert_at_probe probe ht1 (k, v) = (None, ht')"
      using insert_with_cases [OF i] n by blast
    note p = resize_post [OF ok inv r]
    have "insert_post ?M ht1 (k, v) ht'"
      using insert_at_probe_post [OF probe_ok_probe _ a] p by blast
    then have "tombfree ht'" using p by (simp add: insert_post_def)
    then show ?thesis by (simp add: tombfree_def)
  qed
  have B': "\<not> needs_resize ht \<longrightarrow>
            (\<forall>i<length (table ht). \<forall>hi. table ht ! i = Some hi \<and> deleted hi
                \<longrightarrow> table ht' ! i = Some hi)
            \<and> (fst (find_ht ht k) = None \<longrightarrow>
                 used ht' = used ht + 1
                 \<and> (\<exists>l<length (table ht). table ht ! l = None
                       \<and> table ht' = (table ht)[l := Some \<lparr>item = (k, v), deleted = False\<rparr>]))
            \<and> (fst (find_ht ht k) \<noteq> None \<longrightarrow>
                 used ht' = used ht
                 \<and> (\<exists>l<length (table ht). \<exists>hi. table ht ! l = Some hi \<and> \<not> deleted hi
                       \<and> fst (item hi) = k
                       \<and> table ht' = (table ht)[l := Some (hi\<lparr>item := (k, v)\<rparr>)]))"
    by (rule impI) (rule B)
  have C': "needs_resize ht \<longrightarrow> (\<forall>hi. Some hi \<in> set (table ht') \<longrightarrow> \<not> deleted hi)"
    by (rule impI) (rule C)
  show ?thesis by (rule conjI [OF A conjI [OF B' C']])
qed

theorem insert_skips_tombstones_witness:
  "fst (run (HashTable_init default_alpha UseLinearProber id)
          [Insert (0::nat) (10::nat), Insert 11 20, Remove 0]) = [Done, Done, Done]
   \<and> fst (insert_ht (snd (run (HashTable_init default_alpha UseLinearProber id)
          [Insert (0::nat) (10::nat), Insert 11 20, Remove 0])) (0, 5)) = None
   \<and> \<not> needs_resize (snd (run (HashTable_init default_alpha UseLinearProber id)
          [Insert (0::nat) (10::nat), Insert 11 20, Remove 0]))
   \<and> fst (find_ht (snd (run (HashTable_init default_alpha UseLinearProber id)
          [Insert (0::nat) (10::nat), Insert 11 20, Remove 0])) 0) = None
   \<and> used (snd (insert_ht (snd (run (HashTable_init default_alpha UseLinearProber id)
          [Insert (0::nat) (10::nat), Insert 11 20, Remove 0])) (0, 5)))
       = used (snd (run (HashTable_init default_alpha UseLinearProber id)
          [Insert (0::nat) (10::nat), Insert 11 20, Remove 0])) + 1
   \<and> table (snd (insert_ht (snd (run (HashTable_init default_alpha UseLinearProber id)
          [Insert (0::nat) (10::nat), Insert 11 20, Remove 0])) (0, 5))) ! 0
       = Some \<lparr>item = (0, 10), deleted = True\<rparr>
   \<and> table (snd (insert_ht (snd (run (HashTable_init default_alpha UseLinearProber id)
          [Insert (0::nat) (10::nat), Insert 11 20, Remove 0])) (0, 5))) ! 2
       = Some \<lparr>item = (0, 5), deleted = False\<rparr>"
proof -
  let ?run = "run (HashTable_init default_alpha UseLinearProber id)
          [Insert (0::nat) (10::nat), Insert 11 20, Remove 0]"
  let ?ins = "insert_ht (snd ?run) (0, 5)"
  have rs: "fst ?run = [Done, Done, Done]"
    by (simp add: eval_defs insert_fuel_with_unfold CAPACITIES_0 CAPACITIES_1)
  have i: "fst ?ins = None"
    by (simp add: eval_defs insert_fuel_with_unfold CAPACITIES_0 CAPACITIES_1)
  have n: "\<not> needs_resize (snd ?run)"
    by (simp add: eval_defs insert_fuel_with_unfold CAPACITIES_0 CAPACITIES_1)
  have f: "fst (find_ht (snd ?run) 0) = None"
    by (simp add: eval_defs insert_fuel_with_unfold CAPACITIES_0 CAPACITIES_1)
  have t0: "table (snd ?ins) ! 0 = Some \<lparr>item = (0, 10), deleted = True\<rparr>"
    by (simp add: eval_defs insert_fuel_with_unfold CAPACITIES_0 CAPACITIES_1)
  have t2: "table (snd ?ins) ! 2 = Some \<lparr>item = (0, 5), deleted = False\<rparr>"
    by (simp add: eval_defs insert_fuel_with_unfold CAPACITIES_0 CAPACITIES_1)
  have r: "?run = (fst ?run, snd ?run)" by simp
  have nf: "\<forall>r\<in>set (fst ?run). \<not> fatal r" unfolding rs by simp
  have ii: "?ins = (None, snd ?ins)" using i by (metis prod.collapse)
  have "used (snd ?ins) = used (snd ?run) + 1"
    using insert_skips_tombstones [OF r nf ii] n f by blast
  then show ?thesis using rs i n f t0 t2 by simp
qed

lemma CAPACITIES_gap:
  assumes "i < j" "j < capCount"
  shows "CAPACITIES ! i + 12 \<le> CAPACITIES ! j"
proof -
  have "sorted_wrt (\<lambda>a b. a + 12 \<le> b) CAPACITIES" by (simp add: CAPACITIES_def)
  then show ?thesis
    using assms sorted_wrt_nth_less [of "\<lambda>a b. a + 12 \<le> b" CAPACITIES i j]
    by (simp add: capCount_def)
qed

lemma CAPACITIES_pos: "i < capCount \<Longrightarrow> 0 < CAPACITIES ! i"
  using CAPACITIES_above_7 [of "CAPACITIES ! i"] by (simp add: capCount_def)

lemma table_inv_length:
  "table_inv mods ht \<Longrightarrow> length (table ht) = CAPACITIES ! mIndex ht \<and> mIndex ht < capCount
     \<and> 0 < length (table ht)"
  using CAPACITIES_pos [of "mIndex ht"] by (simp add: table_inv_def)

lemma CAPACITIES_gap_24:
  assumes "i < j" "j < capCount"
  shows "CAPACITIES ! i = 11 \<or> CAPACITIES ! i + 24 \<le> CAPACITIES ! j"
proof -
  have "sorted_wrt (\<lambda>a b. a = 11 \<or> a + 24 \<le> b) CAPACITIES" by (simp add: CAPACITIES_def)
  then show ?thesis
    using assms sorted_wrt_nth_less [of "\<lambda>a b. a = 11 \<or> a + 24 \<le> b" CAPACITIES i j]
    by (simp add: capCount_def)
qed

lemma CAPACITIES_ge_23: "0 < j \<Longrightarrow> j < capCount \<Longrightarrow> 23 \<le> CAPACITIES ! j"
  using CAPACITIES_gap [of 0 j] by (simp add: CAPACITIES_0)

lemma CAPACITIES_le: "i < capCount \<Longrightarrow> CAPACITIES ! i \<le> 1685759167"
proof -
  assume "i < capCount"
  then have "CAPACITIES ! i \<in> set CAPACITIES" by (simp add: capCount_def)
  then show ?thesis by (auto simp: CAPACITIES_def)
qed

text \<open>In a table of the ladder both conversions to \<^verbatim>\<open>double\<close> are exact.\<close>

lemma table_inv_exact:
  assumes "table_inv mods ht"
  shows "double_of_nat (used ht + 1) = of_nat (used ht + 1)"
    and "double_of_nat (used ht) = of_nat (used ht)"
    and "double_of_nat (length (table ht)) = of_nat (length (table ht))"
proof -
  have l: "length (table ht) \<le> 1685759167"
    using assms CAPACITIES_le [of "mIndex ht"] by (simp add: table_inv_def)
  have "used ht = length (filter (\<lambda>s. s \<noteq> None) (table ht))"
    using assms by (simp add: table_inv_def)
  then have "used ht \<le> length (table ht)" by simp
  then have u: "used ht \<le> 1685759167" using l by simp
  show "double_of_nat (used ht + 1) = of_nat (used ht + 1)"
    by (rule double_of_nat_exact) (use u in simp)
  show "double_of_nat (used ht) = of_nat (used ht)"
    by (rule double_of_nat_exact) (use u in simp)
  show "double_of_nat (length (table ht)) = of_nat (length (table ht))"
    by (rule double_of_nat_exact) (use l in simp)
qed

lemma needs_resize_rounded:
  "table_inv mods ht \<Longrightarrow>
   needs_resize ht
     \<longleftrightarrow> resizeAlpha ht \<le> round_double (of_nat (used ht + 1) / of_nat (length (table ht)))"
  by (simp only: needs_resize_def table_inv_exact)

text \<open>
  The test fires whenever the exact quotient reaches the load factor: rounding is monotone
  and the load factor is a double. It can also fire just below, see \<open>growth_test_rounds\<close>.
\<close>

lemma needs_resizeI:
  assumes inv: "table_inv mods ht" and d: "round_double (resizeAlpha ht) = resizeAlpha ht"
    and le: "resizeAlpha ht \<le> of_nat (used ht + 1) / of_nat (length (table ht))"
  shows "needs_resize ht"
proof -
  let ?q = "of_nat (used ht + 1) / of_nat (length (table ht)) :: rat"
  have q: "0 \<le> ?q" by simp
  have "resizeAlpha ht \<le> round_double ?q"
  proof (cases "0 \<le> resizeAlpha ht")
    case True
    then have "round_double (resizeAlpha ht) \<le> round_double ?q" using le by (rule round_double_mono)
    then show ?thesis unfolding d .
  next
    case False
    then have "resizeAlpha ht \<le> 0" by simp
    then show ?thesis using round_double_nonneg [OF q] by (rule order_trans)
  qed
  then show ?thesis unfolding needs_resize_rounded [OF inv] .
qed

lemma insert_load:
  assumes inv: "table_inv DOUBLE_HASH_MOD_VALUES ht" and a: "1 / 23 < resizeAlpha ht"
    and d: "round_double (resizeAlpha ht) = resizeAlpha ht"
    and J: "of_nat (used ht) < resizeAlpha ht * of_nat (length (table ht))"
    and i: "insert_ht ht p = (None, ht')"
  shows "of_nat (used ht') < resizeAlpha ht' * of_nat (length (table ht'))"
    and "\<not> needs_resize ht \<longrightarrow> mIndex ht' = mIndex ht"
    and "needs_resize ht \<longrightarrow> mIndex ht < mIndex ht'
           \<and> (\<exists>ht1. resize (insert_fuel (capCount - 1)) ht = (None, ht1)
                  \<and> insert_at_probe probe ht1 p = (None, ht'))"
proof -
  let ?M = DOUBLE_HASH_MOD_VALUES
  let ?al = "resizeAlpha ht"
  have i': "insert_with needs_resize probe (insert_fuel (capCount - 1)) ht p = (None, ht')"
    using i by (simp add: insert_ht_unfold)
  have ok: "ins_ok ?M (insert_fuel (capCount - 1))"
    unfolding insert_fuel_def by (rule ins_ok_insert_fuel_with [OF probe_ok_probe])
  note len = table_inv_length [OF inv]
  have apos: "0 < ?al" using a by simp
  have all: "of_nat (used ht') < resizeAlpha ht' * of_nat (length (table ht'))
      \<and> (\<not> needs_resize ht \<longrightarrow> mIndex ht' = mIndex ht)
      \<and> (needs_resize ht \<longrightarrow> mIndex ht < mIndex ht'
           \<and> (\<exists>ht1. resize (insert_fuel (capCount - 1)) ht = (None, ht1)
                  \<and> insert_at_probe probe ht1 p = (None, ht')))"
    using insert_with_cases [OF i']
  proof
    assume c: "\<not> needs_resize ht \<and> insert_at_probe probe ht p = (None, ht')"
    then have n: "\<not> needs_resize ht" and ap: "insert_at_probe probe ht p = (None, ht')" by simp_all
    note post = insert_at_probe_post [OF probe_ok_probe inv ap]
    have inv': "table_inv ?M ht'" and cfg: "resizeAlpha ht' = ?al"
      using post by (simp_all add: insert_post_def same_config_def)
    have l': "length (table ht') = length (table ht)"
      using table_inv_length [OF inv'] len post by simp
    have "\<not> ?al \<le> of_nat (used ht + 1) / of_nat (length (table ht))"
      using n needs_resizeI [OF inv d] by blast
    then have "of_nat (used ht + 1) / of_nat (length (table ht)) < ?al" by simp
    then have "of_nat (used ht + 1) < ?al * of_nat (length (table ht))"
      using len by (simp add: pos_divide_less_eq)
    moreover have "(of_nat (used ht') :: rat) \<le> of_nat (used ht + 1)"
      using post by (simp only: of_nat_le_iff)
    ultimately have "of_nat (used ht') < resizeAlpha ht' * of_nat (length (table ht'))"
      unfolding cfg l' by (rule le_less_trans [rotated])
    then show ?thesis using n post by simp
  next
    assume "needs_resize ht \<and> (\<exists>ht1. resize (insert_fuel (capCount - 1)) ht = (None, ht1)
        \<and> insert_at_probe probe ht1 p = (None, ht'))"
    then obtain ht1 where n: "needs_resize ht"
      and r: "resize (insert_fuel (capCount - 1)) ht = (None, ht1)"
      and ap: "insert_at_probe probe ht1 p = (None, ht')" by blast
    note rp = resize_post [OF ok inv r]
    have inv1: "table_inv ?M ht1" using rp by simp
    note post = insert_at_probe_post [OF probe_ok_probe inv1 ap]
    have inv': "table_inv ?M ht'" using post by (simp add: insert_post_def)
    have cfg: "resizeAlpha ht' = ?al"
      using post rp by (simp add: insert_post_def same_config_def)
    have "count ht1 = count ht" using rp count_card [OF inv] count_card [OF inv1] by simp
    moreover have "used ht1 = count ht1" using rp by (simp add: tombfree_def)
    moreover have "count ht \<le> used ht" using inv unfolding table_inv_def by blast
    ultimately have u: "used ht' \<le> used ht + 1" using post by simp
    have mi: "mIndex ht < mIndex ht'" "mIndex ht' < capCount"
      using rp post table_inv_length [OF inv'] by simp_all
    have l': "length (table ht') = CAPACITIES ! mIndex ht'"
      using table_inv_length [OF inv'] by simp
    have l: "length (table ht) = CAPACITIES ! mIndex ht" using len by simp
    have u': "(of_nat (used ht') :: rat) \<le> of_nat (used ht) + 1"
      using u by (metis of_nat_Suc of_nat_le_iff Suc_eq_plus1 add.commute)
    have gap: "of_nat (used ht) + 1 < ?al * of_nat (length (table ht'))"
      if g: "length (table ht) + k \<le> length (table ht')" and k: "1 \<le> ?al * of_nat k" for k
    proof -
      have "(of_nat (length (table ht)) :: rat) + of_nat k \<le> of_nat (length (table ht'))"
        using g by (metis of_nat_add of_nat_le_iff)
      then have "?al * (of_nat (length (table ht)) + of_nat k) \<le> ?al * of_nat (length (table ht'))"
        using apos by (simp add: mult_left_mono)
      then show ?thesis using J k by (simp add: distrib_left)
    qed
    have "of_nat (used ht) + 1 < ?al * of_nat (length (table ht'))"
    proof (cases "1 / 12 \<le> ?al")
      case True
      have "length (table ht) + 12 \<le> length (table ht')"
        using CAPACITIES_gap [OF mi] l l' by simp
      moreover have "1 \<le> ?al * of_nat 12" using True by simp
      ultimately show ?thesis by (rule gap)
    next
      case False
      show ?thesis
      proof (cases "length (table ht) = 11")
        case True
        have "?al * 11 < 1" using False by simp
        then have "(of_nat (used ht) :: rat) < 1" using J unfolding True by simp
        then have u0: "used ht = 0" by simp
        have "23 \<le> length (table ht')" using CAPACITIES_ge_23 [of "mIndex ht'"] mi l' by simp
        then have "(23::rat) \<le> of_nat (length (table ht'))"
          by (metis of_nat_le_iff of_nat_numeral)
        then have m: "?al * 23 \<le> ?al * of_nat (length (table ht'))"
          using apos by (simp add: mult_left_mono)
        have "1 < ?al * 23" using a by simp
        then have "1 < ?al * of_nat (length (table ht'))" using m by (rule less_le_trans)
        then show ?thesis using u0 by simp
      next
        case F: False
        have "length (table ht) + 24 \<le> length (table ht')"
          using CAPACITIES_gap_24 [OF mi] l l' F by simp
        moreover have "1 \<le> ?al * of_nat 24" using a by simp
        ultimately show ?thesis by (rule gap)
      qed
    qed
    then have "of_nat (used ht') < ?al * of_nat (length (table ht'))"
      using u' by (rule le_less_trans [rotated])
    then show ?thesis using n mi(1) r ap cfg by auto
  qed
  show "of_nat (used ht') < resizeAlpha ht' * of_nat (length (table ht'))" using all by blast
  show "\<not> needs_resize ht \<longrightarrow> mIndex ht' = mIndex ht" using all by blast
  show "needs_resize ht \<longrightarrow> mIndex ht < mIndex ht'
           \<and> (\<exists>ht1. resize (insert_fuel (capCount - 1)) ht = (None, ht1)
                  \<and> insert_at_probe probe ht1 p = (None, ht'))" using all by blast
qed

lemma step_load:
  assumes inv: "table_inv DOUBLE_HASH_MOD_VALUES ht" and a: "1 / 23 < resizeAlpha ht"
    and d: "round_double (resizeAlpha ht) = resizeAlpha ht"
    and J: "of_nat (used ht) < resizeAlpha ht * of_nat (length (table ht))"
    and st: "step ht x = (r, ht')" and nf: "\<not> fatal r"
  shows "of_nat (used ht') < resizeAlpha ht' * of_nat (length (table ht'))"
proof (cases x)
  case (Insert k v)
  obtain e s where i: "insert_ht ht (k, v) = (e, s)" by (cases "insert_ht ht (k, v)")
  show ?thesis
  proof (cases e)
    case None
    then have "insert_ht ht (k, v) = (None, ht')" using i st Insert by simp
    then show ?thesis by (rule insert_load(1) [OF inv a d J])
  next
    case (Some err)
    then have "err \<in> {TableFull, CapacityExhausted}" using insert_ht_error i by blast
    then have "fatal r" using st Insert i Some by auto
    then show ?thesis using nf by simp
  qed
next
  case (Remove k)
  then have h: "ht' = remove_ht ht k" using st by simp
  show ?thesis
    by (cases rule: remove_ht_cases [of ht k]) (use J h in simp_all)
next
  case (Find k)
  obtain tp where "find_ht ht k = (lookup DOUBLE_HASH_MOD_VALUES ht k, ht\<lparr>totalProbes := tp\<rparr>)"
    by (rule find_ht_eq)
  then show ?thesis using st Find J by auto
next
  case (At k)
  obtain tp where "at_ht ht k = ((case lookup DOUBLE_HASH_MOD_VALUES ht k of None \<Rightarrow> Inl KeyNotFound
                    | Some kv \<Rightarrow> Inr (snd kv)), ht\<lparr>totalProbes := tp\<rparr>)"
    by (rule at_ht_eq)
  then show ?thesis using st At J by (auto split: option.splits)
next
  case Size
  then show ?thesis using st J by auto
next
  case Empty
  then show ?thesis using st J by auto
qed

lemma run_load:
  "table_inv DOUBLE_HASH_MOD_VALUES ht \<Longrightarrow> 1 / 23 < resizeAlpha ht
   \<Longrightarrow> round_double (resizeAlpha ht) = resizeAlpha ht
   \<Longrightarrow> of_nat (used ht) < resizeAlpha ht * of_nat (length (table ht))
   \<Longrightarrow> run_with step ht xs = (rs, ht') \<Longrightarrow> \<forall>r\<in>set rs. \<not> fatal r
   \<Longrightarrow> of_nat (used ht') < resizeAlpha ht' * of_nat (length (table ht'))"
proof (induction xs arbitrary: ht rs)
  case Nil
  then show ?case by simp
next
  case (Cons x xs)
  obtain r h1 where s: "step ht x = (r, h1)" by (cases "step ht x")
  obtain rs1 h2 where t: "run_with step h1 xs = (rs1, h2)" by (cases "run_with step h1 xs")
  have e: "rs = r # rs1" "h2 = ht'" using Cons.prems(5) s t by simp_all
  have nf: "\<not> fatal r" "\<forall>r\<in>set rs1. \<not> fatal r" using Cons.prems(6) e by simp_all
  have "table_inv DOUBLE_HASH_MOD_VALUES h1 \<and> same_config ht h1"
    using refines_step Cons.prems(1) s nf(1) unfolding refines_def by blast
  then have inv1: "table_inv DOUBLE_HASH_MOD_VALUES h1" and a1: "1 / 23 < resizeAlpha h1"
    and d1: "round_double (resizeAlpha h1) = resizeAlpha h1"
    using Cons.prems(2,3) by (simp_all add: same_config_def)
  have J1: "of_nat (used h1) < resizeAlpha h1 * of_nat (length (table h1))"
    by (rule step_load [OF Cons.prems(1,2,3,4) s nf(1)])
  show ?case by (rule Cons.IH [OF inv1 a1 d1 J1 t [unfolded e(2)] nf(2)])
qed

text \<open>
  The rounding is seen by the test. The load factor \<^verbatim>\<open>4.0 / 11\<close> is the double
  \<open>3275345183542179 / 2\<^sup>5\<^sup>3\<close>, a little above \<open>4/11\<close>. At the fourth \<^verbatim>\<open>insert\<close> the quotient
  \<^verbatim>\<open>double(4) / 11\<close> rounds to that same double, the test fires and the table grows to 23
  slots, although the exact quotient \<open>4/11\<close> is below the load factor.
\<close>

lemma growth_test_rounds:
  "round_double (4 / 11) = 3275345183542179 / 9007199254740992
   \<and> (4 / 11 :: rat) < 3275345183542179 / 9007199254740992
   \<and> needs_resize (snd (run (HashTable_init (3275345183542179 / 9007199254740992)
        UseLinearProber id) [Insert (0::nat) (0::nat), Insert 1 1, Insert 2 2]))
   \<and> length (table (snd (run (HashTable_init (3275345183542179 / 9007199254740992)
        UseLinearProber id) [Insert (0::nat) (0::nat), Insert 1 1, Insert 2 2, Insert 3 3]))) = 23"
  by (simp add: eval_defs insert_fuel_with_unfold CAPACITIES_0 CAPACITIES_1)

text \<open>
  The bound of the load-factor claim needs a load factor above \<open>1/23\<close>: with any load
  factor up to \<open>1/23\<close> the first \<^verbatim>\<open>insert\<close> grows the new table to 23 slots, once, and returns
  with one slot of 23 used.
\<close>

lemma load_factor_threshold:
  assumes "alpha \<le> 1 / 23"
  shows "fst (run (HashTable_init alpha UseLinearProber id) [Insert (0::nat) (0::nat)]) = [Done]"
    and "used (snd (run (HashTable_init alpha UseLinearProber id) [Insert (0::nat) (0::nat)])) = 1"
    and "length (table (snd (run (HashTable_init alpha UseLinearProber id)
           [Insert (0::nat) (0::nat)]))) = 23"
proof -
  have r: "round_double (1 / 11) = 3275345183542179 / 36028797018963968"
    by (simp add: round_double_def ilog2_rec round_half_even_def Let_def floor_numeral_div_rat)
  have n: "alpha \<le> 3275345183542179 / 36028797018963968" using assms by simp
  let ?run = "run (HashTable_init alpha UseLinearProber id) [Insert (0::nat) (0::nat)]"
  have e: "?run = ([Done],
      \<lparr>table = (replicate 23 None)[0 := Some \<lparr>item = (0, 0), deleted = False\<rparr>],
       prober = UseLinearProber, hash = id, resizeAlpha = alpha, totalProbes = 1,
       mIndex = 1, count = 1, used = 1\<rparr>)"
    using n
    by (simp add: run_def insert_ht_def insert_fuel_def insert_with_def insert_at_probe_def
          resize_def probe_def probe_loop.simps probe_stop_def LinearProber_next_def
          Prober_init_def HashTable_init_def capCount_28 Let_def insert_fuel_with_unfold
          CAPACITIES_0 CAPACITIES_1 needs_resize_def double_of_nat_exact r
          replicate_numeral_Cons list_update_numeral_Cons)
  show "fst ?run = [Done]" unfolding e by simp
  show "used (snd ?run) = 1" unfolding e by simp
  show "length (table (snd ?run)) = 23" unfolding e by simp
qed

text \<open>
  Claim C2, as stated: for every table state reachable by public operations,
  \<open>usedCount / capacity < maxLoadFactor\<close> right after any \<^verbatim>\<open>insert\<close> returns. The constructor
  accepts any load factor and \<^verbatim>\<open>insert\<close> grows at most once per call: with load factor
  \<open>1/32\<close> the first \<^verbatim>\<open>insert\<close> grows the new table from 11 to 23 slots and returns with
  \<open>1/23 \<ge> 1/32\<close>.
\<close>

theorem load_factor_counterexample:
  "fst (run (HashTable_init (1/32) UseLinearProber id) [Insert (0::nat) (0::nat)]) = [Done]
   \<and> used (snd (run (HashTable_init (1/32) UseLinearProber id) [Insert (0::nat) (0::nat)])) = 1
   \<and> length (table (snd (run (HashTable_init (1/32) UseLinearProber id)
        [Insert (0::nat) (0::nat)]))) = 23
   \<and> resizeAlpha (snd (run (HashTable_init (1/32) UseLinearProber id)
        [Insert (0::nat) (0::nat)])) = 1/32
   \<and> \<not> (of_nat (used (snd (run (HashTable_init (1/32) UseLinearProber id)
              [Insert (0::nat) (0::nat)])))
          / of_nat (length (table (snd (run (HashTable_init (1/32) UseLinearProber id)
              [Insert (0::nat) (0::nat)]))))
        < resizeAlpha (snd (run (HashTable_init (1/32) UseLinearProber id)
              [Insert (0::nat) (0::nat)])))"
  by (simp add: eval_defs insert_fuel_with_unfold CAPACITIES_0 CAPACITIES_1)

text \<open>
  Claim C2, amended, for \<^verbatim>\<open>src/ht.h\<close>: for a table constructed with a load factor that is a
  finite double above \<open>1/23\<close> (the default \<^verbatim>\<open>0.4\<close> included), in every state reached by public
  operations whose inserts returned, right after any \<^verbatim>\<open>insert\<close> returns
  \<open>usedCount / capacity < maxLoadFactor\<close>. The growth test compares the \<^verbatim>\<open>double\<close> quotient of
  \<open>usedCount + 1\<close> and the capacity with the load factor; it fires whenever the exact quotient
  reaches the load factor. When it fires, \<^verbatim>\<open>resize\<close> runs to its end first and the pair is
  written into the grown table; when it does not fire the capacity index is unchanged.
\<close>

theorem load_factor_bound:
  assumes "1 / 23 < alpha" and "round_double alpha = alpha"
    and "run (HashTable_init alpha pk h) xs = (rs, ht)" and "\<forall>r\<in>set rs. \<not> fatal r"
    and "insert_ht ht p = (None, ht')"
  shows "of_nat (used ht') / of_nat (length (table ht')) < alpha
       \<and> resizeAlpha ht' = alpha
       \<and> (needs_resize ht
            \<longleftrightarrow> alpha \<le> round_double (of_nat (used ht + 1) / of_nat (length (table ht))))
       \<and> (alpha \<le> of_nat (used ht + 1) / of_nat (length (table ht)) \<longrightarrow> needs_resize ht)
       \<and> (\<not> needs_resize ht \<longrightarrow> mIndex ht' = mIndex ht)
       \<and> (needs_resize ht \<longrightarrow>
            mIndex ht < mIndex ht'
            \<and> (\<exists>ht1. resize (insert_fuel (capCount - 1)) ht = (None, ht1)
                   \<and> insert_at_probe probe ht1 p = (None, ht')))"
proof -
  let ?M = DOUBLE_HASH_MOD_VALUES
  let ?i = "HashTable_init alpha pk h :: ('a, 'b) HashTable"
  note m = run_map [OF assms(3,4)]
  have al: "resizeAlpha ht = alpha" using m(4) by (simp add: same_config_def HashTable_init_def)
  have J0: "of_nat (used ?i) < resizeAlpha ?i * of_nat (length (table ?i))"
    using assms(1) by (simp add: HashTable_init_def CAPACITIES_0)
  have a0: "1 / 23 < resizeAlpha ?i" using assms(1) by (simp add: HashTable_init_def)
  have d0: "round_double (resizeAlpha ?i) = resizeAlpha ?i"
    using assms(2) by (simp add: HashTable_init_def)
  have J: "of_nat (used ht) < resizeAlpha ht * of_nat (length (table ht))"
    by (rule run_load [OF HashTable_init_inv(1) a0 d0 J0 assms(3) [unfolded run_def] assms(4)])
  have a: "1 / 23 < resizeAlpha ht" using al assms(1) by simp
  have d: "round_double (resizeAlpha ht) = resizeAlpha ht" using al assms(2) by simp
  note L = insert_load [OF m(1) a d J assms(5)]
  have ok: "ins_ok ?M insert_ht" by (rule insert_ht_ok)
  have post: "insert_post ?M ht p ht'" using ok m(1) assms(5) unfolding ins_ok_def by blast
  then have inv': "table_inv ?M ht'" and al': "resizeAlpha ht' = alpha"
    using al by (simp_all add: insert_post_def same_config_def)
  have "0 < length (table ht')" using table_inv_length [OF inv'] by blast
  then have b: "of_nat (used ht') / of_nat (length (table ht')) < alpha"
    using L(1) al' by (simp add: pos_divide_less_eq)
  have t: "needs_resize ht
      \<longleftrightarrow> alpha \<le> round_double (of_nat (used ht + 1) / of_nat (length (table ht)))"
    using needs_resize_rounded [OF m(1)] al by simp
  have e: "alpha \<le> of_nat (used ht + 1) / of_nat (length (table ht)) \<longrightarrow> needs_resize ht"
    using needs_resizeI [OF m(1) d] al by simp
  show ?thesis using b al' t e L(2,3) by blast
qed

theorem load_factor_bound_witness:
  "fst (run (HashTable_init default_alpha UseLinearProber id)
          [Insert (0::nat) (10::nat), Insert 11 20, Insert 1 30, Insert 2 40]) = [Done, Done, Done, Done]
   \<and> fst (insert_ht (snd (run (HashTable_init default_alpha UseLinearProber id)
          [Insert (0::nat) (10::nat), Insert 11 20, Insert 1 30, Insert 2 40])) (3, 50)) = None
   \<and> needs_resize (snd (run (HashTable_init default_alpha UseLinearProber id)
          [Insert (0::nat) (10::nat), Insert 11 20, Insert 1 30, Insert 2 40]))
   \<and> used (snd (insert_ht (snd (run (HashTable_init default_alpha UseLinearProber id)
          [Insert (0::nat) (10::nat), Insert 11 20, Insert 1 30, Insert 2 40])) (3, 50))) = 5
   \<and> length (table (snd (insert_ht (snd (run (HashTable_init default_alpha UseLinearProber id)
          [Insert (0::nat) (10::nat), Insert 11 20, Insert 1 30, Insert 2 40])) (3, 50)))) = 23
   \<and> of_nat (used (snd (insert_ht (snd (run (HashTable_init default_alpha UseLinearProber id)
          [Insert (0::nat) (10::nat), Insert 11 20, Insert 1 30, Insert 2 40])) (3, 50))))
       / of_nat (length (table (snd (insert_ht (snd (run (HashTable_init default_alpha UseLinearProber id)
          [Insert (0::nat) (10::nat), Insert 11 20, Insert 1 30, Insert 2 40])) (3, 50)))))
       < default_alpha"
proof -
  let ?run = "run (HashTable_init default_alpha UseLinearProber id)
          [Insert (0::nat) (10::nat), Insert 11 20, Insert 1 30, Insert 2 40]"
  let ?ins = "insert_ht (snd ?run) (3, 50)"
  have rs: "fst ?run = [Done, Done, Done, Done]"
    by (simp add: eval_defs insert_fuel_with_unfold CAPACITIES_0 CAPACITIES_1)
  have i: "fst ?ins = None"
    by (simp add: eval_defs insert_fuel_with_unfold CAPACITIES_0 CAPACITIES_1)
  have n: "needs_resize (snd ?run)"
    by (simp add: eval_defs insert_fuel_with_unfold CAPACITIES_0 CAPACITIES_1)
  have u: "used (snd ?ins) = 5"
    by (simp add: eval_defs insert_fuel_with_unfold CAPACITIES_0 CAPACITIES_1)
  have l: "length (table (snd ?ins)) = 23"
    by (simp add: eval_defs insert_fuel_with_unfold CAPACITIES_0 CAPACITIES_1)
  have r: "?run = (fst ?run, snd ?run)" by simp
  have nf: "\<forall>r\<in>set (fst ?run). \<not> fatal r" unfolding rs by simp
  have ii: "?ins = (None, snd ?ins)" using i by (metis prod.collapse)
  have a: "1 / 23 < default_alpha" by (simp add: default_alpha_def)
  have d: "round_double default_alpha = default_alpha" by (rule default_alpha_double(2))
  have "of_nat (used (snd ?ins)) / of_nat (length (table (snd ?ins))) < default_alpha"
    using load_factor_bound [OF a d r nf ii] by blast
  then show ?thesis using rs i n u l by simp
qed

lemma next_no_wrap:
  assumes "c \<in> set CAPACITIES" "start < c" "n < c" "stp < c"
  shows "start + n * stp < 2 ^ 64"
proof -
  have c: "c \<le> 1685759167" using assms(1) by (auto simp: CAPACITIES_def)
  have "n * stp \<le> c * c" using assms(3,4) by (simp add: mult_le_mono)
  also have "\<dots> \<le> 1685759167 * 1685759167" by (rule mult_le_mono [OF c c])
  finally have "start + n * stp \<le> 1685759167 + 1685759167 * 1685759167"
    using assms(2) c by simp
  also have "\<dots> < (2::nat) ^ 64" by simp
  finally show ?thesis .
qed

lemma rehash_replicate_None: "rehash ins (replicate n None) s = (None, s)"
  by (induction n) simp_all

lemma locate_first:
  assumes "0 < m" "probe_stop tbl k (start mod m)"
  shows "locate (probe_indices start m stp) tbl k = Some (start mod m)"
proof -
  have "[0..<m] = 0 # [Suc 0..<m]" using assms(1) by (simp add: upt_conv_Cons)
  then have "probe_indices start m stp
               = start mod m # map (\<lambda>j. (start + j * stp) mod m) [Suc 0..<m]"
    by (simp add: probe_indices_def)
  then show ?thesis using assms(2) by (simp add: locate_def)
qed

lemma CAPACITIES_ge: "i < capCount \<Longrightarrow> 7 < CAPACITIES ! i"
  using CAPACITIES_above_7 [of "CAPACITIES ! i"] by (simp add: capCount_def)

lemma replicate_update_1:
  "2 \<le> n \<Longrightarrow> (replicate n x)[Suc 0 := y] = x # y # replicate (n - 2) x"
proof -
  assume "2 \<le> n"
  then obtain m where "n = Suc (Suc m)" by (metis add_2_eq_Suc le_Suc_ex)
  then show ?thesis by simp
qed

lemma locate_key_1:
  assumes "i < capCount" "probe_stop tbl (1::nat) 1"
  shows "locate (probe_sequence DOUBLE_HASH_MOD_VALUES UseLinearProber id i 1) tbl 1 = Some 1"
proof -
  have c: "7 < CAPACITIES ! i" using CAPACITIES_ge [OF assms(1)] .
  have m: "(1::nat) mod CAPACITIES ! i = 1" by (rule mod_less) (use c in simp)
  have p: "probe_stop tbl (1::nat) (1 mod CAPACITIES ! i)" using assms(2) by (simp only: m)
  have "0 < CAPACITIES ! i" using c by simp
  then have "locate (probe_indices 1 (CAPACITIES ! i) 1) tbl (1::nat) = Some (1 mod CAPACITIES ! i)"
    using p by (rule locate_first)
  then show ?thesis
    by (simp only: probe_sequence_def stride_def prober_kind.case id_apply m)
qed

lemma place_in_empty_table:
  assumes "i < capCount"
  shows "\<exists>tp'. insert_at_probe probe (empty_table_at i tp) (1, b)
                 = (None, single_pair_table i tp' b)"
proof -
  let ?ht = "empty_table_at i tp"
  have c: "7 < CAPACITIES ! i" using CAPACITIES_ge [OF assms] .
  have l: "locate (probe_sequence DOUBLE_HASH_MOD_VALUES (prober ?ht) (hash ?ht) (mIndex ?ht) 1)
             (table ?ht) 1 = Some 1"
    using locate_key_1 [OF assms, of "table ?ht"] c
    by (simp add: empty_table_at_def probe_stop_def)
  have t: "table ?ht ! 1 = None" using c by (simp add: empty_table_at_def)
  from probe_ok_probe show ?thesis
  proof (cases rule: insert_at_probe_cases [where ht = ?ht and k = 1 and v = b])
    case (full tp')
    then show ?thesis using l by simp
  next
    case (fresh l' tp')
    then have "l' = 1" using l by simp
    then have "insert_at_probe probe ?ht (1, b) = (None, single_pair_table i tp' b)"
      using fresh(3) c
      by (simp add: empty_table_at_def single_pair_table_def replicate_update_1)
    then show ?thesis ..
  next
    case (over l' hi tp')
    then show ?thesis using l t by simp
  qed
qed

lemma overwrite_single_pair:
  assumes "i < capCount"
  shows "\<exists>tp'. insert_at_probe probe (single_pair_table i tp b) (1, b')
                 = (None, single_pair_table i tp' b')"
proof -
  let ?ht = "single_pair_table i tp b"
  have l: "locate (probe_sequence DOUBLE_HASH_MOD_VALUES (prober ?ht) (hash ?ht) (mIndex ?ht) 1)
             (table ?ht) 1 = Some 1"
    using locate_key_1 [OF assms, of "table ?ht"]
    by (simp add: single_pair_table_def probe_stop_def)
  have t: "table ?ht ! 1 = Some \<lparr>item = (1, b), deleted = False\<rparr>"
    by (simp add: single_pair_table_def)
  from probe_ok_probe show ?thesis
  proof (cases rule: insert_at_probe_cases [where ht = ?ht and k = 1 and v = b'])
    case (full tp')
    then show ?thesis using l by simp
  next
    case (fresh l' tp')
    then show ?thesis using l t by simp
  next
    case (over l' hi tp')
    then have "l' = 1" "hi = \<lparr>item = (1, b), deleted = False\<rparr>" using l t by simp_all
    then have "insert_at_probe probe ?ht (1, b') = (None, single_pair_table i tp' b')"
      using over(3) by (simp add: single_pair_table_def)
    then show ?thesis ..
  qed
qed

lemma needs_resize_zero: "resizeAlpha ht = 0 \<Longrightarrow> needs_resize ht"
  by (simp add: needs_resize_def growth_test_nonneg)

lemma insert_into_empty_table:
  assumes "i + 1 < capCount"
  shows "\<exists>tp'. insert_fuel (Suc n) (empty_table_at i tp) (1, b)
                 = (None, single_pair_table (i + 1) tp' b)"
proof -
  have n: "needs_resize (empty_table_at i tp)"
    by (rule needs_resize_zero) (simp add: empty_table_at_def)
  have r: "resize (insert_fuel n) (empty_table_at i tp) = (None, empty_table_at (i + 1) tp)"
    using assms by (simp add: resize_def empty_table_at_def rehash_replicate_None)
  obtain tp' where "insert_at_probe probe (empty_table_at (i + 1) tp) (1, b)
                 = (None, single_pair_table (i + 1) tp' b)"
    using place_in_empty_table [OF assms] by blast
  then have "insert_fuel (Suc n) (empty_table_at i tp) (1, b)
                 = (None, single_pair_table (i + 1) tp' b)"
    using n r by (simp add: insert_fuel_def insert_with_def)
  then show ?thesis ..
qed

lemma grow_single_pair:
  assumes "i + 2 < capCount"
  shows "\<exists>tp'. insert_fuel (Suc (Suc n)) (single_pair_table i tp b) (1, b')
                 = (None, single_pair_table (i + 2) tp' b')"
proof -
  let ?T = "single_pair_table i tp b"
  have n: "needs_resize ?T"
    by (rule needs_resize_zero) (simp add: single_pair_table_def)
  obtain tp1 where i1: "insert_fuel (Suc n) (empty_table_at (i + 1) tp) (1, b)
                 = (None, single_pair_table (i + 2) tp1 b)"
    using insert_into_empty_table [of "i + 1" n tp b] assms by auto
  have "resize (insert_fuel (Suc n)) ?T
          = rehash (insert_fuel (Suc n)) (table ?T) (empty_table_at (i + 1) tp)"
    using assms by (simp add: resize_def single_pair_table_def empty_table_at_def)
  also have "\<dots> = (None, single_pair_table (i + 2) tp1 b)"
    using i1 by (simp add: single_pair_table_def [of i] rehash_replicate_None)
  finally have r: "resize (insert_fuel (Suc n)) ?T = (None, single_pair_table (i + 2) tp1 b)" .
  obtain tp' where "insert_at_probe probe (single_pair_table (i + 2) tp1 b) (1, b')
                 = (None, single_pair_table (i + 2) tp' b')"
    using overwrite_single_pair [of "i + 2"] assms by blast
  then have "insert_fuel (Suc (Suc n)) ?T (1, b') = (None, single_pair_table (i + 2) tp' b')"
    using n r by (simp add: insert_fuel_def insert_with_def)
  then show ?thesis ..
qed

lemma run_grow_single_pair:
  "i + 2 * n < capCount \<Longrightarrow>
   \<exists>tp'. run (single_pair_table i tp b) (replicate n (Insert 1 b))
           = (replicate n Done, single_pair_table (i + 2 * n) tp' b)"
proof (induction n arbitrary: i tp)
  case 0
  show ?case by (intro exI [of _ tp]) (simp add: run_def)
next
  case (Suc n)
  have "i + 2 < capCount" using Suc.prems by simp
  then obtain tp1 where s: "insert_ht (single_pair_table i tp b) (1, b)
                 = (None, single_pair_table (i + 2) tp1 b)"
    using grow_single_pair [of i 26 tp b b]
    by (auto simp: insert_ht_def capCount_28 numeral_eq_Suc)
  have "i + 2 + 2 * n < capCount" using Suc.prems by simp
  then obtain tp' where "run (single_pair_table (i + 2) tp1 b) (replicate n (Insert 1 b))
           = (replicate n Done, single_pair_table (i + 2 + 2 * n) tp' b)"
    using Suc.IH by blast
  then have "run (single_pair_table i tp b) (replicate (Suc n) (Insert 1 b))
           = (replicate (Suc n) Done, single_pair_table (i + 2 * Suc n) tp' b)"
    using s by (simp add: run_def)
  then show ?case ..
qed

lemma run_with_append:
  "run_with stp ht (xs @ ys)
     = (case run_with stp ht xs of (rs, h) \<Rightarrow>
          case run_with stp h ys of (rs', h') \<Rightarrow> (rs @ rs', h'))"
  by (induction xs arbitrary: ht) (simp_all add: split_beta)

lemma reach_rung_2:
  "run (HashTable_init 0 UseLinearProber id) [Insert (0::nat) (0::nat), Remove 0, Insert 1 1]
     = ([Done, Done, Done],
        single_pair_table 2 (totalProbes (snd (run (HashTable_init 0 UseLinearProber id)
            [Insert (0::nat) (0::nat), Remove 0, Insert 1 1]))) 1)"
  by (simp add: eval_defs insert_fuel_with_unfold CAPACITIES_0 CAPACITIES_1
        single_pair_table_def CAPACITIES_def)

lemma reach_rung_26:
  "\<exists>tp. run (HashTable_init 0 UseLinearProber id)
           ([Insert (0::nat) (0::nat), Remove 0, Insert 1 1] @ replicate 12 (Insert 1 1))
         = ([Done, Done, Done] @ replicate 12 Done, single_pair_table 26 tp 1)"
proof -
  have "\<exists>tp0. run (HashTable_init 0 UseLinearProber id)
                 [Insert (0::nat) (0::nat), Remove 0, Insert 1 1]
               = ([Done, Done, Done], single_pair_table 2 tp0 1)"
    by (rule exI) (rule reach_rung_2)
  then obtain tp0 where r2: "run_with step (HashTable_init 0 UseLinearProber id)
                 [Insert (0::nat) (0::nat), Remove 0, Insert 1 1]
               = ([Done, Done, Done], single_pair_table 2 tp0 1)"
    unfolding run_def ..
  have "2 + 2 * 12 < capCount" by (simp add: capCount_28)
  from run_grow_single_pair [OF this, of tp0 1]
  obtain tp' where g: "run_with step (single_pair_table 2 tp0 1) (replicate 12 (Insert 1 1))
         = (replicate 12 Done, single_pair_table (2 + 2 * 12) tp' 1)"
    unfolding run_def ..
  have "(2::nat) + 2 * 12 = 26" by simp
  then have "run (HashTable_init 0 UseLinearProber id)
           ([Insert (0::nat) (0::nat), Remove 0, Insert 1 1] @ replicate 12 (Insert 1 1))
         = ([Done, Done, Done] @ replicate 12 Done, single_pair_table 26 tp' 1)"
    by (simp only: run_def run_with_append r2 g prod.case)
  then show ?thesis ..
qed

lemma insert_on_rung_26:
  "insert_ht (single_pair_table 26 tp 1) (1, 2) = (Some CapacityExhausted, empty_table_at 27 tp)"
  by (simp add: insert_ht_def insert_fuel_def capCount_28 insert_fuel_with_unfold
        insert_with_def resize_def needs_resize_def growth_test_nonneg single_pair_table_def
        empty_table_at_def CAPACITIES_27)

text \<open>
  Claim C5, as stated: an \<^verbatim>\<open>insert\<close> that throws \<open>CapacityExhausted\<close> leaves the table as it
  was. It does not when the exception comes from an \<^verbatim>\<open>insert\<close> nested in \<^verbatim>\<open>resize\<close>. Take a
  new table with load factor 0, the linear prober and the identity hash. After
  \<^verbatim>\<open>insert(0, 0)\<close>, \<^verbatim>\<open>remove(0)\<close>, \<^verbatim>\<open>insert(1, 1)\<close> and twelve more \<^verbatim>\<open>insert(1, 1)\<close>, all
  returning normally, it is on rung 26 (842879579 slots) and holds the one pair \<open>(1, 1)\<close>.
  Now \<^verbatim>\<open>insert(1, 2)\<close> grows: \<^verbatim>\<open>resize\<close> moves to rung 27, empties the table and re-inserts
  \<open>(1, 1)\<close>; that nested \<^verbatim>\<open>insert\<close> tests \<open>1 / 1685759167 \<ge> 0\<close>, calls \<^verbatim>\<open>resize\<close> on the last
  rung and throws. The caller gets \<open>CapacityExhausted\<close> and a table on rung 27 that is empty.
\<close>

theorem capacity_exhausted_counterexample:
  "fst (run (HashTable_init 0 UseLinearProber id)
          ([Insert (0::nat) (0::nat), Remove 0, Insert 1 1] @ replicate 12 (Insert 1 1)))
     = [Done, Done, Done] @ replicate 12 Done
   \<and> mIndex (snd (run (HashTable_init 0 UseLinearProber id)
          ([Insert (0::nat) (0::nat), Remove 0, Insert 1 1] @ replicate 12 (Insert 1 1)))) = 26
   \<and> count (snd (run (HashTable_init 0 UseLinearProber id)
          ([Insert (0::nat) (0::nat), Remove 0, Insert 1 1] @ replicate 12 (Insert 1 1)))) = 1
   \<and> fst (insert_ht (snd (run (HashTable_init 0 UseLinearProber id)
          ([Insert (0::nat) (0::nat), Remove 0, Insert 1 1] @ replicate 12 (Insert 1 1)))) (1, 2))
       = Some CapacityExhausted
   \<and> mIndex (snd (insert_ht (snd (run (HashTable_init 0 UseLinearProber id)
          ([Insert (0::nat) (0::nat), Remove 0, Insert 1 1] @ replicate 12 (Insert 1 1)))) (1, 2)))
       = 27
   \<and> count (snd (insert_ht (snd (run (HashTable_init 0 UseLinearProber id)
          ([Insert (0::nat) (0::nat), Remove 0, Insert 1 1] @ replicate 12 (Insert 1 1)))) (1, 2)))
       = 0
   \<and> table (snd (insert_ht (snd (run (HashTable_init 0 UseLinearProber id)
          ([Insert (0::nat) (0::nat), Remove 0, Insert 1 1] @ replicate 12 (Insert 1 1)))) (1, 2)))
       = replicate 1685759167 None"
proof -
  obtain tp where r: "run (HashTable_init 0 UseLinearProber id)
           ([Insert (0::nat) (0::nat), Remove 0, Insert 1 1] @ replicate 12 (Insert 1 1))
         = ([Done, Done, Done] @ replicate 12 Done, single_pair_table 26 tp 1)"
    using reach_rung_26 ..
  show ?thesis
    unfolding r fst_conv snd_conv insert_on_rung_26
    by (simp add: single_pair_table_def empty_table_at_def CAPACITIES_27)
qed

text \<open>
  The growth test of \<^verbatim>\<open>part_000\<close> is on \<^verbatim>\<open>used_\<close>, not \<^verbatim>\<open>used_ + 1\<close>: with the default load
  factor \<^verbatim>\<open>0.4\<close> it lets the fifth \<^verbatim>\<open>insert\<close> into 11 slots return with 5 of the 11 slots used,
  where \<^verbatim>\<open>ht.h\<close> grows to 23 slots first.
\<close>

lemma load_factor_part_000:
  "fst (run_p0 (HashTable_init default_alpha UseLinearProber id)
      [Insert (0::nat) (0::nat), Insert 1 1, Insert 2 2, Insert 3 3, Insert 4 4])
     = [Done, Done, Done, Done, Done]
   \<and> used (snd (run_p0 (HashTable_init default_alpha UseLinearProber id)
      [Insert (0::nat) (0::nat), Insert 1 1, Insert 2 2, Insert 3 3, Insert 4 4])) = 5
   \<and> length (table (snd (run_p0 (HashTable_init default_alpha UseLinearProber id)
      [Insert (0::nat) (0::nat), Insert 1 1, Insert 2 2, Insert 3 3, Insert 4 4]))) = 11
   \<and> length (table (snd (run (HashTable_init default_alpha UseLinearProber id)
      [Insert (0::nat) (0::nat), Insert 1 1, Insert 2 2, Insert 3 3, Insert 4 4]))) = 23"
  by (simp add: eval_defs insert_fuel_with_unfold CAPACITIES_0 CAPACITIES_1 sizes_eq
        length_CAPACITIES)

text \<open>
  \<^verbatim>\<open>reportAll\<close> of \<^verbatim>\<open>part_000\<close> lists exactly the live items, each once, by ascending bucket;
  \<^verbatim>\<open>reportAll\<close> of \<^verbatim>\<open>ht.h\<close> lists every non-null slot.
\<close>

lemma sorted_concat_upt:
  assumes "\<And>i x. x \<in> set (f i) \<Longrightarrow> fst x = i" "\<And>i. length (f i) \<le> 1"
  shows "sorted_wrt (<) (map fst (concat (map f [0..<n])))"
proof (induction n)
  case 0
  then show ?case by simp
next
  case (Suc n)
  have l: "\<forall>x\<in>set (concat (map f [0..<n])). fst x < n"
    using assms(1) by auto
  have r: "sorted_wrt (<) (map fst (f n))"
    using assms(2) [of n] by (cases "f n") auto
  have "\<forall>x\<in>set (concat (map f [0..<n])). \<forall>y\<in>set (f n). fst x < fst y"
    using l assms(1) by auto
  then show ?case using Suc r by (simp add: sorted_wrt_append)
qed

lemma reportAll_p0_members:
  "(i, k, v) \<in> set (reportAll_p0 ht)
   \<longleftrightarrow> i < length (table ht)
       \<and> (\<exists>hi. table ht ! i = Some hi \<and> \<not> deleted hi \<and> item hi = (k, v))"
proof -
  have "(i, k, v) \<in> set (case table ht ! j of None \<Rightarrow> []
          | Some hi \<Rightarrow> if \<not> deleted hi then [(j, fst (item hi), snd (item hi))] else [])
        \<longleftrightarrow> i = j \<and> (\<exists>hi. table ht ! i = Some hi \<and> \<not> deleted hi \<and> item hi = (k, v))"
    for j
    by (cases "table ht ! j") (auto simp: prod_eq_iff)
  then show ?thesis
    unfolding reportAll_p0_def by (simp add: conj_commute)
qed

lemma reportAll_p0_slot_order: "sorted_wrt (<) (map fst (reportAll_p0 ht))"
  unfolding reportAll_p0_def
  by (rule sorted_concat_upt) (auto split: option.splits if_splits)

lemma reportAll_members:
  "(i, k, v) \<in> set (reportAll ht)
   \<longleftrightarrow> i < length (table ht) \<and> (\<exists>hi. table ht ! i = Some hi \<and> item hi = (k, v))"
proof -
  have "(i, k, v) \<in> set (case table ht ! j of None \<Rightarrow> []
          | Some hi \<Rightarrow> [(j, fst (item hi), snd (item hi))])
        \<longleftrightarrow> i = j \<and> (\<exists>hi. table ht ! i = Some hi \<and> item hi = (k, v))"
    for j
    by (cases "table ht ! j") (auto simp: prod_eq_iff)
  then show ?thesis
    unfolding reportAll_def by (simp add: conj_commute)
qed

lemma reportAll_slot_order: "sorted_wrt (<) (map fst (reportAll ht))"
  unfolding reportAll_def
  by (rule sorted_concat_upt) (auto split: option.splits)

end
